theory Spec2Isabelle
  imports
    Main
    "HOL-Library.Char_ord"
    "HOL-Library.List_Lexorder"
    "HOL-Library.Multiset"
    "HOL-Library.Sublist"
begin

section \<open>JSON documents\<close>

text \<open>
  The CV document is what \<^verbatim>\<open>JSON.parse\<close> returns (\<^verbatim>\<open>generate_portfolio.js\<close> line 132,
  \<^verbatim>\<open>generate_cv.js\<close> line 234, the request body in \<^verbatim>\<open>server.js\<close>): a tree of null,
  booleans, numbers, strings, arrays and plain objects. An object is the list of its own
  properties in the order \<^verbatim>\<open>Object.entries\<close> enumerates them. Numbers are the integers
  (a JSON number with a fraction is outside the model; where the program computes with a
  number, the model says which integers it covers). \<^verbatim>\<open>undefined\<close> is not a JSON
  value: a property read that finds nothing is \<open>None\<close>.
\<close>

datatype json =
    JNull
  | JBool bool
  | JNum int
  | JStr string
  | JArr "json list"
  | JObj "(string \<times> json) list"

subsection \<open>Own properties of a plain object\<close>

definition is_digit :: "char \<Rightarrow> bool" where
  "is_digit c = (48 \<le> (of_char c :: int) \<and> (of_char c :: int) \<le> 57)"

definition digit_val :: "char \<Rightarrow> int" where
  "digit_val c = of_char c - 48"

definition digits_val :: "string \<Rightarrow> int" where
  "digits_val s = foldl (\<lambda>n c. 10 * n + digit_val c) 0 s"

text \<open>
  An array index is a canonical decimal numeral below \<open>2^32 - 1\<close>. A JavaScript object
  enumerates its array-index keys first, in ascending numeric order, and then its other
  string keys in the order they were created.
\<close>

definition is_array_index :: "string \<Rightarrow> bool" where
  "is_array_index k =
     (k \<noteq> [] \<and> list_all is_digit k \<and> (k = ''0'' \<or> hd k \<noteq> CHR ''0'')
      \<and> digits_val k < 2 ^ 32 - 1)"

fun insert_index :: "string \<Rightarrow> 'v \<Rightarrow> (string \<times> 'v) list \<Rightarrow> (string \<times> 'v) list" where
  "insert_index k v [] = [(k, v)]"
| "insert_index k v ((k', v') # kvs) =
     (if is_array_index k' \<and> digits_val k' < digits_val k
      then (k', v') # insert_index k v kvs
      else (k, v) # (k', v') # kvs)"

text \<open>
  \<^verbatim>\<open>obj[k] = v\<close> on an object whose properties are all own data properties: an existing
  property keeps its place and gets the new value, a new one is created.
\<close>

definition obj_set :: "(string \<times> 'v) list \<Rightarrow> string \<Rightarrow> 'v \<Rightarrow> (string \<times> 'v) list" where
  "obj_set obj k v =
     (if k \<in> fst ` set obj then map (\<lambda>(k', v'). if k' = k then (k', v) else (k', v')) obj
      else if is_array_index k then insert_index k v obj
      else obj @ [(k, v)])"

text \<open>
  \<^verbatim>\<open>result[key] = value\<close> on an object literal \<^verbatim>\<open>{}\<close>, which inherits from
  \<^verbatim>\<open>Object.prototype\<close>: the key \<^verbatim>\<open>__proto__\<close> reaches the inherited setter, so no own
  property is created (the setter changes the prototype when the value is an object and
  does nothing otherwise). The model keeps the own properties only.
\<close>

definition assign :: "(string \<times> json) list \<Rightarrow> string \<Rightarrow> json \<Rightarrow> (string \<times> json) list" where
  "assign obj k v = (if k = ''__proto__'' then obj else obj_set obj k v)"

definition assign_all :: "(string \<times> json) list \<Rightarrow> (string \<times> json) list" where
  "assign_all es = foldl (\<lambda>res (k, v). assign res k v) [] es"

section \<open>The localizer\<close>

text \<open>
  \<^verbatim>\<open>localizeData\<close> (\<^verbatim>\<open>generate_cv.js\<close> lines 25-42, and the same text in the library part
  of \<^verbatim>\<open>generate_portfolio.js\<close>, lines 241-258):
  \<^verbatim>\<open>
  function localizeData(data, lang) {
      if (Array.isArray(data)) return data.map(item => localizeData(item, lang));
      if (data !== null && typeof data === 'object') {
          if (data[lang] !== undefined &&
              (typeof data[lang] === 'string' || Array.isArray(data[lang])))
              return data[lang];
          const result = {};
          for (const [key, value] of Object.entries(data))
              result[key] = localizeData(value, lang);
          return result;
      }
      return data;
  }
  \<close>
  A property that \<^verbatim>\<open>data[lang]\<close> finds on \<^verbatim>\<open>Object.prototype\<close> is a function or an
  object, never a string or an array, so the test reads the own properties only.
\<close>

fun localizeData :: "json \<Rightarrow> string \<Rightarrow> json" where
  "localizeData (JArr xs) lang = JArr (map (\<lambda>item. localizeData item lang) xs)"
| "localizeData (JObj kvs) lang =
     (case map_of kvs lang of
        Some (JStr s) \<Rightarrow> JStr s
      | Some (JArr ys) \<Rightarrow> JArr ys
      | _ \<Rightarrow> JObj (assign_all (map (\<lambda>(key, v). (key, localizeData v lang)) kvs)))"
| "localizeData v lang = v"

text \<open>The value of a bilingual node: a string or an array.\<close>

fun is_text :: "json \<Rightarrow> bool" where
  "is_text (JStr s) = True"
| "is_text (JArr ys) = True"
| "is_text v = False"

text \<open>An object that the localizer resolves for \<open>lang\<close> at once.\<close>

definition resolvable :: "(string \<times> json) list \<Rightarrow> string \<Rightarrow> bool" where
  "resolvable kvs lang = (case map_of kvs lang of Some v \<Rightarrow> is_text v | None \<Rightarrow> False)"

text \<open>A document with a node somewhere in it that is resolvable for \<open>lang\<close>.\<close>

fun has_bilingual :: "json \<Rightarrow> string \<Rightarrow> bool" where
  "has_bilingual (JArr xs) lang = list_ex (\<lambda>x. has_bilingual x lang) xs"
| "has_bilingual (JObj kvs) lang =
     (resolvable kvs lang \<or> list_ex (\<lambda>(k, v). has_bilingual v lang) kvs)"
| "has_bilingual v lang = False"

text \<open>
  The order of own keys of a JavaScript object: wherever a key is an array index, every
  key before it is a smaller array index.
\<close>

definition own_key_order :: "string list \<Rightarrow> bool" where
  "own_key_order ks =
     sorted_wrt (\<lambda>a b. is_array_index b \<longrightarrow> is_array_index a \<and> digits_val a < digits_val b) ks"

text \<open>
  A parsed document: in every object the keys are distinct and in enumeration order. The
  key \<^verbatim>\<open>__proto__\<close> (which \<^verbatim>\<open>JSON.parse\<close> can create as an own property) is excluded.
\<close>

fun wf_json :: "json \<Rightarrow> bool" where
  "wf_json (JArr xs) = list_all wf_json xs"
| "wf_json (JObj kvs) =
     (distinct (map fst kvs) \<and> ''__proto__'' \<notin> set (map fst kvs)
      \<and> own_key_order (map fst kvs) \<and> list_all (\<lambda>(k, v). wf_json v) kvs)"
| "wf_json v = True"

section \<open>The localizer on the heap\<close>

text \<open>
  Whether a call changes its argument cannot be said of values alone. Here the document
  lives in a heap: a cell is an array or an object, a value is a primitive or the
  address of a cell, and an address is an index into the list of cells. Creating an
  array or an object appends a cell. The function below is \<^verbatim>\<open>localizeData\<close> again, on
  this heap: it returns the new heap with the result. Its first argument bounds the
  depth of the recursion; \<open>None\<close> says that the call does not return a value within
  that depth (on a cyclic structure it never does), or that it met an address with no
  cell, which a parsed document does not contain.
\<close>

datatype val = VNull | VBool bool | VNum int | VStr string | VRef nat

datatype cell = CArr "val list" | CObj "(string \<times> val) list"

type_synonym heap = "cell list"

text \<open>\<^verbatim>\<open>Array.isArray(v)\<close>, and \<^verbatim>\<open>typeof v === 'string' || Array.isArray(v)\<close>.\<close>

definition is_array_ref :: "heap \<Rightarrow> val \<Rightarrow> bool" where
  "is_array_ref h v =
     (case v of
        VRef b \<Rightarrow> b < length h \<and> (case h ! b of CArr xs \<Rightarrow> True | CObj kvs \<Rightarrow> False)
      | _ \<Rightarrow> False)"

definition is_textH :: "heap \<Rightarrow> val \<Rightarrow> bool" where
  "is_textH h v = (case v of VStr s \<Rightarrow> True | _ \<Rightarrow> is_array_ref h v)"

text \<open>\<^verbatim>\<open>result[key] = value\<close>, as \<open>assign\<close> above.\<close>

definition assignH :: "(string \<times> val) list \<Rightarrow> string \<Rightarrow> val \<Rightarrow> (string \<times> val) list" where
  "assignH obj k v = (if k = ''__proto__'' then obj else obj_set obj k v)"

text \<open>
  The array case is \<^verbatim>\<open>data.map\<close>, the object case the loop over \<^verbatim>\<open>Object.entries(data)\<close>
  that fills \<^verbatim>\<open>result\<close>; the new cell is appended when its content is complete.
\<close>

fun localizeDataH :: "nat \<Rightarrow> heap \<Rightarrow> val \<Rightarrow> string \<Rightarrow> (heap \<times> val) option"
  and localizeItemsH :: "nat \<Rightarrow> heap \<Rightarrow> val list \<Rightarrow> string \<Rightarrow> (heap \<times> val list) option"
  and localizeEntriesH ::
    "nat \<Rightarrow> heap \<Rightarrow> (string \<times> val) list \<Rightarrow> (string \<times> val) list \<Rightarrow> string
     \<Rightarrow> (heap \<times> (string \<times> val) list) option"
where
  "localizeDataH 0 h data lang = None"
| "localizeDataH (Suc n) h (VRef a) lang =
     (if a < length h then
        (case h ! a of
           CArr items \<Rightarrow>
             (case localizeItemsH n h items lang of
                None \<Rightarrow> None
              | Some (h', items') \<Rightarrow> Some (h' @ [CArr items'], VRef (length h')))
         | CObj kvs \<Rightarrow>
             (case map_of kvs lang of
                Some v \<Rightarrow>
                  if is_textH h v then Some (h, v)
                  else (case localizeEntriesH n h kvs [] lang of
                          None \<Rightarrow> None
                        | Some (h', result) \<Rightarrow> Some (h' @ [CObj result], VRef (length h')))
              | None \<Rightarrow>
                  (case localizeEntriesH n h kvs [] lang of
                     None \<Rightarrow> None
                   | Some (h', result) \<Rightarrow> Some (h' @ [CObj result], VRef (length h')))))
      else None)"
| "localizeDataH (Suc n) h v lang = Some (h, v)"
| "localizeItemsH n h [] lang = Some (h, [])"
| "localizeItemsH n h (item # items) lang =
     (case localizeDataH n h item lang of
        None \<Rightarrow> None
      | Some (h', item') \<Rightarrow>
          (case localizeItemsH n h' items lang of
             None \<Rightarrow> None
           | Some (h'', items') \<Rightarrow> Some (h'', item' # items')))"
| "localizeEntriesH n h [] result lang = Some (h, result)"
| "localizeEntriesH n h ((key, v) # entries) result lang =
     (case localizeDataH n h v lang of
        None \<Rightarrow> None
      | Some (h', v') \<Rightarrow> localizeEntriesH n h' entries (assignH result key v') lang)"

text \<open>
  A value in a heap represents a document: the link between the heap and the documents
  as values of the first sections.
\<close>

inductive repr :: "heap \<Rightarrow> val \<Rightarrow> json \<Rightarrow> bool" for h :: heap where
  repr_null: "repr h VNull JNull"
| repr_bool: "repr h (VBool b) (JBool b)"
| repr_num: "repr h (VNum n) (JNum n)"
| repr_str: "repr h (VStr s) (JStr s)"
| repr_arr: "a < length h \<Longrightarrow> h ! a = CArr vs \<Longrightarrow> list_all2 (repr h) vs ds
             \<Longrightarrow> repr h (VRef a) (JArr ds)"
| repr_obj: "a < length h \<Longrightarrow> h ! a = CObj kvs \<Longrightarrow> list_all2 (rel_prod (=) (repr h)) kvs kds
             \<Longrightarrow> repr h (VRef a) (JObj kds)"

section \<open>The site builder\<close>

text \<open>
  \<^verbatim>\<open>generatePortfolio\<close> (\<^verbatim>\<open>generate_portfolio.js\<close> lines 179-213) renders four templates for
  each language of \<^verbatim>\<open>LANGUAGES\<close> and writes each to a path under \<^verbatim>\<open>OUTPUT_DIR\<close>. A path is
  the list of the segments that \<^verbatim>\<open>path.join\<close> receives after \<^verbatim>\<open>OUTPUT_DIR\<close>.
\<close>

text \<open>
  \<open>TypeError\<close> is the exception of that name. \<open>NotModelled\<close> is not an outcome of the
  program: it marks an input on which the model gives no result (a number outside the
  range in which the model computes as the program does).
\<close>

datatype js_error = TypeError | NotModelled

definition LANGUAGES :: "string list" where
  "LANGUAGES = [''en'', ''nl'']"

definition homePath :: "string \<Rightarrow> string list" where
  "homePath lang = (if lang = ''en'' then [''index.html''] else [lang, ''index.html''])"

definition cvPagePath :: "string \<Rightarrow> string list" where
  "cvPagePath lang =
     (if lang = ''en'' then [''cv'', ''index.html''] else [''cv'', lang @ ''.html''])"

definition pubsPath :: "string \<Rightarrow> string list" where
  "pubsPath lang =
     (if lang = ''en'' then [''publications'', ''index.html'']
      else [''publications'', lang @ ''.html''])"

definition presPath :: "string \<Rightarrow> string list" where
  "presPath lang =
     (if lang = ''en'' then [''presentations'', ''index.html'']
      else [''presentations'', lang @ ''.html''])"

text \<open>
  The body of the loop: four times, \<^verbatim>\<open>renderTemplate\<close> and then \<^verbatim>\<open>fs.writeFileSync\<close>.
  The renderer is a parameter (the templates are not part of the sources); when it throws,
  the build stops there, with the files written so far. The second component of the
  result is the error, if any.
\<close>

type_synonym 'h out_tree = "string list \<rightharpoonup> 'h"

fun write_pages ::
  "(string \<Rightarrow> string \<Rightarrow> js_error + 'h) \<Rightarrow> string \<Rightarrow> (string \<times> string list) list
   \<Rightarrow> 'h out_tree \<Rightarrow> 'h out_tree \<times> js_error option" where
  "write_pages render lang [] out = (out, None)"
| "write_pages render lang ((template, p) # rest) out =
     (case render template lang of
        Inl e \<Rightarrow> (out, Some e)
      | Inr html \<Rightarrow> write_pages render lang rest (out(p \<mapsto> html)))"

definition pages_of :: "string \<Rightarrow> (string \<times> string list) list" where
  "pages_of lang =
     [(''portfolio_home.html'', homePath lang),
      (''portfolio_cv.html'', cvPagePath lang),
      (''portfolio_publications.html'', pubsPath lang),
      (''portfolio_presentations.html'', presPath lang)]"

fun generate_langs ::
  "(string \<Rightarrow> string \<Rightarrow> js_error + 'h) \<Rightarrow> string list \<Rightarrow> 'h out_tree
   \<Rightarrow> 'h out_tree \<times> js_error option" where
  "generate_langs render [] out = (out, None)"
| "generate_langs render (lang # langs) out =
     (case write_pages render lang (pages_of lang) out of
        (out', Some e) \<Rightarrow> (out', Some e)
      | (out', None) \<Rightarrow> generate_langs render langs out')"

definition generatePages ::
  "(string \<Rightarrow> string \<Rightarrow> js_error + 'h) \<Rightarrow> 'h out_tree \<Rightarrow> 'h out_tree \<times> js_error option" where
  "generatePages render out = generate_langs render LANGUAGES out"

text \<open>A path under a directory named by the language code.\<close>

definition under_lang_dir :: "string \<Rightarrow> string list \<Rightarrow> bool" where
  "under_lang_dir lang p = (case p of [] \<Rightarrow> False | d # rest \<Rightarrow> d = lang \<and> rest \<noteq> [])"

section \<open>The PDF exporters\<close>

text \<open>
  \<^verbatim>\<open>generatePDF\<close> of the command line tool (\<^verbatim>\<open>generate_cv.js\<close> lines 58-97), and
  \<^verbatim>\<open>generatePDF\<close> and \<^verbatim>\<open>generatePDFBuffer\<close> of the library (lines 322-360 and 365-397 of
  \<^verbatim>\<open>generate_portfolio.js\<close>). Each loads puppeteer and then awaits a fixed sequence of
  engine calls: \<^verbatim>\<open>launch\<close>, \<^verbatim>\<open>newPage\<close>, \<^verbatim>\<open>setViewport\<close>, \<^verbatim>\<open>setContent\<close>,
  \<^verbatim>\<open>evaluateHandle('document.fonts.ready')\<close>, \<^verbatim>\<open>pdf\<close> and \<^verbatim>\<open>close\<close> (the 500 ms timer
  before \<^verbatim>\<open>pdf\<close> cannot fail and is left out). The engine is the environment:
  whether \<^verbatim>\<open>require('puppeteer')\<close> succeeds, and for each call whether it throws (and
  what). A run yields the calls it made, in
  order, what it printed, and how it ended: it returned, it threw to its caller, or it
  ended the process with \<^verbatim>\<open>process.exit\<close>.
\<close>

datatype engine_call =
    Launch | NewPage | SetViewport | SetContent | FontsReady | Pdf | Close

datatype event = Call engine_call | ConsoleError string | ConsoleLog string

datatype 'a outcome = Returned 'a | Thrown string | Exited int

record 'b engine =
  require_ok :: bool
  throws :: "engine_call \<Rightarrow> string option"
  pdf_bytes :: 'b

text \<open>The awaited calls, one after the other: the first that throws ends the sequence.\<close>

fun await_all :: "(engine_call \<Rightarrow> string option) \<Rightarrow> engine_call list
                  \<Rightarrow> event list \<times> string option" where
  "await_all thr [] = ([], None)"
| "await_all thr (c # cs) =
     (case thr c of
        Some e \<Rightarrow> ([Call c], Some e)
      | None \<Rightarrow> (case await_all thr cs of (tr, r) \<Rightarrow> (Call c # tr, r)))"

definition export_calls :: "engine_call list" where
  "export_calls = [Launch, NewPage, SetViewport, SetContent, FontsReady, Pdf, Close]"

definition not_installed :: string where
  "not_installed = ''puppeteer not installed. Run: npm install puppeteer''"

text \<open>The library's \<^verbatim>\<open>generatePDFBuffer(htmlContent, baseDir)\<close>.\<close>

definition generatePDFBuffer :: "'b engine \<Rightarrow> event list \<times> 'b outcome" where
  "generatePDFBuffer env =
     (if \<not> require_ok env then ([], Thrown not_installed)
      else case await_all (throws env) export_calls of
             (tr, Some e) \<Rightarrow> (tr, Thrown e)
           | (tr, None) \<Rightarrow> (tr, Returned (pdf_bytes env)))"

text \<open>The library's \<^verbatim>\<open>generatePDF(htmlContent, outputPath, baseDir)\<close>.\<close>

definition generatePDF_lib :: "'b engine \<Rightarrow> event list \<times> 'b outcome" where
  "generatePDF_lib env =
     (if \<not> require_ok env then ([], Thrown not_installed)
      else case await_all (throws env) export_calls of
             (tr, Some e) \<Rightarrow> (tr, Thrown e)
           | (tr, None) \<Rightarrow> (tr, Returned (pdf_bytes env)))"

text \<open>
  The command line tool's \<^verbatim>\<open>generatePDF(htmlContent, outputPath, baseDir)\<close>: its
  \<^verbatim>\<open>catch\<close> prints and calls \<^verbatim>\<open>process.exit(1)\<close>; at the end it prints the output path
  and returns nothing.
\<close>

definition generatePDF_cli :: "'b engine \<Rightarrow> string \<Rightarrow> event list \<times> unit outcome" where
  "generatePDF_cli env outputPath =
     (if \<not> require_ok env then ([ConsoleError (''Error: '' @ not_installed)], Exited 1)
      else case await_all (throws env) export_calls of
             (tr, Some e) \<Rightarrow> (tr, Thrown e)
           | (tr, None) \<Rightarrow> (tr @ [ConsoleLog (''  PDF generated: '' @ outputPath)], Returned ()))"

text \<open>The calls of a run, and whether a run ended by throwing to its caller.\<close>

definition calls_of :: "event list \<Rightarrow> engine_call list" where
  "calls_of tr = concat (map (\<lambda>ev. case ev of Call c \<Rightarrow> [c] | _ \<Rightarrow> []) tr)"

fun is_thrown :: "'a outcome \<Rightarrow> bool" where
  "is_thrown (Thrown e) = True"
| "is_thrown r = False"

section \<open>The renderer's data shaping\<close>

text \<open>
  \<^verbatim>\<open>renderTemplate\<close> (\<^verbatim>\<open>generate_portfolio.js\<close> lines 75-116) localizes the document, groups
  the presentations by year and sorts the publications, and hands the result to the
  template engine. The two shaping steps are modelled here; they read the properties
  \<^verbatim>\<open>visible\<close>, \<^verbatim>\<open>date\<close>, \<^verbatim>\<open>year\<close>, \<^verbatim>\<open>books\<close>, \<^verbatim>\<open>book_chapters\<close> and \<^verbatim>\<open>articles\<close>.
\<close>

text \<open>
  \<^verbatim>\<open>x.k\<close> for one of these names: reading a property of \<^verbatim>\<open>null\<close> throws a TypeError; an
  object gives its own property; a boolean, a number, a string or an array has no such
  property and gives \<^verbatim>\<open>undefined\<close>.
\<close>

fun get_prop :: "json \<Rightarrow> string \<Rightarrow> js_error + json option" where
  "get_prop JNull k = Inl TypeError"
| "get_prop (JObj kvs) k = Inr (map_of kvs k)"
| "get_prop v k = Inr None"

text \<open>Truthiness: \<^verbatim>\<open>undefined\<close>, \<^verbatim>\<open>null\<close>, \<^verbatim>\<open>false\<close>, \<^verbatim>\<open>0\<close> and \<^verbatim>\<open>""\<close> are falsy.\<close>

fun truthy :: "json option \<Rightarrow> bool" where
  "truthy None = False"
| "truthy (Some JNull) = False"
| "truthy (Some (JBool b)) = b"
| "truthy (Some (JNum n)) = (n \<noteq> 0)"
| "truthy (Some (JStr s)) = (s \<noteq> [])"
| "truthy (Some v) = True"

text \<open>
  \<^verbatim>\<open>for (const x of v)\<close> and \<^verbatim>\<open>[...v]\<close>: an array gives its elements, a string its
  characters (one string each; the model is exact for ASCII strings), and any other
  value is not iterable.
\<close>

fun iterate :: "json \<Rightarrow> js_error + json list" where
  "iterate (JArr xs) = Inr xs"
| "iterate (JStr s) = Inr (map (\<lambda>c. JStr [c]) s)"
| "iterate v = Inl TypeError"

subsection \<open>Sorting an array with a comparator\<close>

text \<open>
  \<^verbatim>\<open>Array.prototype.sort(cmp)\<close>. A comparator returns a number, \<open>None\<close> standing for
  \<^verbatim>\<open>NaN\<close>, or throws, and the sort throws with it. The language fixes the result when
  the comparator is consistent (the sort is stable) and leaves the order to the engine
  when it is not, as with \<^verbatim>\<open>NaN\<close> against two different numbers. The program runs on
  Node.js, and the model is the sort of its engine: the engine reads of a comparison only
  whether the result is below zero, \<^verbatim>\<open>NaN\<close> counting as zero, and on an array of fewer
  than 64 elements it finds the run the array starts with and inserts every later
  element into it by binary search. An array of fewer than two elements is returned
  with no comparison.
\<close>

fun is_negative :: "int option \<Rightarrow> bool" where
  "is_negative None = False"
| "is_negative (Some n) = (n < 0)"

text \<open>
  The binary insertion of \<open>pivot\<close> into the elements placed so far: the pivot is compared
  with the middle element of the range, \<^verbatim>\<open>mid = left + ((right - left) >> 1)\<close>; a result
  below zero continues in the part left of the middle, and any other result in the part
  right of it, the middle excluded. The pivot goes where the range becomes empty.
\<close>

function binary_insert ::
  "('a \<Rightarrow> 'a \<Rightarrow> js_error + int option) \<Rightarrow> 'a \<Rightarrow> 'a list \<Rightarrow> js_error + 'a list" where
  "binary_insert cmp pivot xs =
     (if xs = [] then Inr [pivot]
      else (case cmp pivot (xs ! (length xs div 2)) of
              Inl e \<Rightarrow> Inl e
            | Inr order \<Rightarrow>
                if is_negative order then
                  (case binary_insert cmp pivot (take (length xs div 2) xs) of
                     Inl e \<Rightarrow> Inl e
                   | Inr zs \<Rightarrow> Inr (zs @ drop (length xs div 2) xs))
                else
                  (case binary_insert cmp pivot (drop (Suc (length xs div 2)) xs) of
                     Inl e \<Rightarrow> Inl e
                   | Inr zs \<Rightarrow> Inr (take (Suc (length xs div 2)) xs @ zs))))"
  by pat_completeness auto
termination
  by (relation "measure (\<lambda>(cmp, pivot, xs). length xs)") auto

declare binary_insert.simps [simp del]


fun sort_loop ::
  "('a \<Rightarrow> 'a \<Rightarrow> js_error + int option) \<Rightarrow> 'a list \<Rightarrow> 'a list \<Rightarrow> js_error + 'a list" where
  "sort_loop cmp placed [] = Inr placed"
| "sort_loop cmp placed (x # xs) =
     (case binary_insert cmp x placed of
        Inl e \<Rightarrow> Inl e
      | Inr placed' \<Rightarrow> sort_loop cmp placed' xs)"


text \<open>
  The first run. The second element is compared with the first; a result below zero
  starts a strictly descending run, and any other result a run that does not descend.
  Each further element is compared with the one before it, and the run ends at the
  first element that does not continue it. \<open>run_loop\<close> returns the elements after
  \<open>previous\<close> that belong to the run, and the rest of the array. A descending run is
  reversed in place.
\<close>

fun run_loop ::
  "('a \<Rightarrow> 'a \<Rightarrow> js_error + int option) \<Rightarrow> bool \<Rightarrow> 'a \<Rightarrow> 'a list
   \<Rightarrow> js_error + 'a list \<times> 'a list" where
  "run_loop cmp descending previous [] = Inr ([], [])"
| "run_loop cmp descending previous (current # rest) =
     (case cmp current previous of
        Inl e \<Rightarrow> Inl e
      | Inr order \<Rightarrow>
          if is_negative order \<noteq> descending then Inr ([], current # rest)
          else (case run_loop cmp descending current rest of
                  Inl e \<Rightarrow> Inl e
                | Inr (run, rest') \<Rightarrow> Inr (current # run, rest')))"


fun count_and_make_run ::
  "('a \<Rightarrow> 'a \<Rightarrow> js_error + int option) \<Rightarrow> 'a list \<Rightarrow> js_error + 'a list \<times> 'a list" where
  "count_and_make_run cmp (first # second # rest) =
     (case cmp second first of
        Inl e \<Rightarrow> Inl e
      | Inr order \<Rightarrow>
          (case run_loop cmp (is_negative order) second rest of
             Inl e \<Rightarrow> Inl e
           | Inr (run, rest') \<Rightarrow>
               Inr (if is_negative order then rev (first # second # run)
                    else first # second # run, rest')))"
| "count_and_make_run cmp xs = Inr (xs, [])"


text \<open>
  On 64 elements and more the engine cuts the array into several runs and merges them.
  A stable sort has one result for a consistent comparator, so the function below is
  the engine's sort on every array for a consistent comparator, and on an array of fewer
  than 64 elements for every comparator.
\<close>

definition array_sort ::
  "('a \<Rightarrow> 'a \<Rightarrow> js_error + int option) \<Rightarrow> 'a list \<Rightarrow> js_error + 'a list" where
  "array_sort cmp xs =
     (case count_and_make_run cmp xs of
        Inl e \<Rightarrow> Inl e
      | Inr (run, rest) \<Rightarrow> sort_loop cmp run rest)"

subsection \<open>Presentations by year\<close>

text \<open>
  \<^verbatim>\<open>
  const grouped = {};
  for (const pres of localized.presentations) {
      if (pres.visible === false) continue;
      const yearMatch = pres.date ? pres.date.match(/\d{4}/) : null;
      const year = yearMatch ? yearMatch[0] : 'Other';
      if (!grouped[year]) grouped[year] = [];
      grouped[year].push(pres);
  }
  localized.presentationsByYear = Object.keys(grouped)
      .sort((a, b) => b - a)
      .map(year => ({ year, items: grouped[year] }));
  \<close>
\<close>

text \<open>The first match of \<^verbatim>\<open>/\d{4}/\<close>: the leftmost four consecutive ASCII digits.\<close>

fun match_4digits :: "string \<Rightarrow> string option" where
  "match_4digits (a # b # c # d # rest) =
     (if is_digit a \<and> is_digit b \<and> is_digit c \<and> is_digit d then Some [a, b, c, d]
      else match_4digits (b # c # d # rest))"
| "match_4digits s = None"

text \<open>
  The year of an entry. A truthy \<^verbatim>\<open>date\<close> that is not a string has no method
  \<^verbatim>\<open>match\<close>, and the call throws a TypeError.
\<close>

definition year_of :: "json \<Rightarrow> js_error + string" where
  "year_of pres =
     (case get_prop pres ''date'' of
        Inl e \<Rightarrow> Inl e
      | Inr d \<Rightarrow>
          if truthy d then
            (case d of
               Some (JStr s) \<Rightarrow>
                 Inr (case match_4digits s of Some y \<Rightarrow> y | None \<Rightarrow> ''Other'')
             | _ \<Rightarrow> Inl TypeError)
          else Inr ''Other'')"

text \<open>\<^verbatim>\<open>if (!grouped[year]) grouped[year] = []; grouped[year].push(pres);\<close>\<close>

definition push_group ::
  "(string \<times> json list) list \<Rightarrow> string \<Rightarrow> json \<Rightarrow> (string \<times> json list) list" where
  "push_group grouped year pres =
     (case map_of grouped year of
        None \<Rightarrow> obj_set grouped year [pres]
      | Some items \<Rightarrow> obj_set grouped year (items @ [pres]))"

fun group_loop ::
  "json list \<Rightarrow> (string \<times> json list) list \<Rightarrow> js_error + (string \<times> json list) list" where
  "group_loop [] grouped = Inr grouped"
| "group_loop (pres # rest) grouped =
     (case get_prop pres ''visible'' of
        Inl e \<Rightarrow> Inl e
      | Inr vis \<Rightarrow>
          if vis = Some (JBool False) then group_loop rest grouped
          else (case year_of pres of
                  Inl e \<Rightarrow> Inl e
                | Inr year \<Rightarrow> group_loop rest (push_group grouped year pres)))"

text \<open>
  \<^verbatim>\<open>b - a\<close> on two keys converts both to numbers. A key is four digits or \<^verbatim>\<open>Other\<close> (see
  \<open>year_of\<close>): a string of decimal digits converts to its value, and \<^verbatim>\<open>Other\<close> to
  \<^verbatim>\<open>NaN\<close>. (The conversion also accepts white space, signs, fractions, exponents and
  other radixes, and gives 0 for the empty string; no key has these forms, and the
  function below is the conversion on non-empty digit strings and on strings that
  contain a letter.)
\<close>

definition key_number :: "string \<Rightarrow> int option" where
  "key_number k = (if k \<noteq> [] \<and> list_all is_digit k then Some (digits_val k) else None)"

definition year_desc :: "string \<Rightarrow> string \<Rightarrow> int option" where
  "year_desc a b =
     (case (key_number b, key_number a) of
        (Some nb, Some na) \<Rightarrow> Some (nb - na)
      | _ \<Rightarrow> None)"

definition presentationsByYear :: "json list \<Rightarrow> js_error + (string \<times> json list) list" where
  "presentationsByYear presentations =
     (case group_loop presentations [] of
        Inl e \<Rightarrow> Inl e
      | Inr grouped \<Rightarrow>
          (case array_sort (\<lambda>a b. Inr (year_desc a b)) (map fst grouped) of
             Inl e \<Rightarrow> Inl e
           | Inr years \<Rightarrow>
               Inr (map (\<lambda>year. (year, case map_of grouped year of
                                          Some items \<Rightarrow> items | None \<Rightarrow> [])) years)))"

text \<open>The array of \<^verbatim>\<open>{ year, items }\<close> objects, and the step on the localized document.\<close>

definition groups_json :: "(string \<times> json list) list \<Rightarrow> json" where
  "groups_json groups =
     JArr (map (\<lambda>(year, items). JObj [(''year'', JStr year), (''items'', JArr items)]) groups)"

definition shape_presentations :: "(string \<times> json) list \<Rightarrow> js_error + (string \<times> json) list" where
  "shape_presentations localized =
     (if truthy (map_of localized ''presentations'') then
        (case iterate (the (map_of localized ''presentations'')) of
           Inl e \<Rightarrow> Inl e
         | Inr presentations \<Rightarrow>
             (case presentationsByYear presentations of
                Inl e \<Rightarrow> Inl e
              | Inr groups \<Rightarrow> Inr (obj_set localized ''presentationsByYear'' (groups_json groups))))
      else Inr localized)"

subsection \<open>Publications by year\<close>

text \<open>
  \<^verbatim>\<open>
  const sortByYear = (a, b) => parseInt(b.year || 0) - parseInt(a.year || 0);
  if (localized.publications.books)
      localized.publications.books = [...localized.publications.books].sort(sortByYear);
  \<close>
  and the same for \<^verbatim>\<open>book_chapters\<close> and \<^verbatim>\<open>articles\<close>.
\<close>

text \<open>
  The decimal numeral of an integer, as \<^verbatim>\<open>String(n)\<close> and a template literal print it
  (for magnitudes below \<open>10^21\<close>).
\<close>

function dec_nat :: "int \<Rightarrow> string" where
  "dec_nat n = (if n < 10 then [char_of (48 + n)] else dec_nat (n div 10) @ [char_of (48 + n mod 10)])"
  by pat_completeness auto
termination
  by (relation "measure nat") auto

declare dec_nat.simps [simp del]

definition dec :: "int \<Rightarrow> string" where
  "dec n = (if n < 0 then CHR ''-'' # dec_nat (- n) else dec_nat n)"

text \<open>
  \<^verbatim>\<open>String(v)\<close>: an array prints its elements separated by commas, \<^verbatim>\<open>null\<close> elements as
  nothing; an object prints as \<^verbatim>\<open>[object Object]\<close>.
\<close>

fun join_comma :: "string list \<Rightarrow> string" where
  "join_comma [] = []"
| "join_comma [s] = s"
| "join_comma (s # t # ss) = s @ '','' @ join_comma (t # ss)"

fun to_string :: "json \<Rightarrow> string" where
  "to_string JNull = ''null''"
| "to_string (JBool b) = (if b then ''true'' else ''false'')"
| "to_string (JNum n) = dec n"
| "to_string (JStr s) = s"
| "to_string (JArr xs) = join_comma (map (\<lambda>x. if x = JNull then [] else to_string x) xs)"
| "to_string (JObj kvs) = ''[object Object]''"

text \<open>
  \<^verbatim>\<open>parseInt(s)\<close> with no radix: leading white space is skipped (the ASCII white space
  here), then a sign, then \<^verbatim>\<open>0x\<close> or \<^verbatim>\<open>0X\<close> selects radix 16, and the longest run of
  digits of the radix is the value; with no digit the result is \<^verbatim>\<open>NaN\<close>.
\<close>

definition is_space :: "char \<Rightarrow> bool" where
  "is_space c = ((of_char c :: int) \<in> {9, 10, 11, 12, 13, 32})"

definition hex_val :: "char \<Rightarrow> int option" where
  "hex_val c =
     (let n = (of_char c :: int) in
      if 48 \<le> n \<and> n \<le> 57 then Some (n - 48)
      else if 97 \<le> n \<and> n \<le> 102 then Some (n - 87)
      else if 65 \<le> n \<and> n \<le> 70 then Some (n - 55)
      else None)"

definition parse_digits :: "string \<Rightarrow> int option" where
  "parse_digits s =
     (case s of
        a # b # rest \<Rightarrow>
          if a = CHR ''0'' \<and> (b = CHR ''x'' \<or> b = CHR ''X'') then
            (let ds = takeWhile (\<lambda>c. hex_val c \<noteq> None) rest in
             if ds = [] then None
             else Some (foldl (\<lambda>n c. 16 * n + the (hex_val c)) 0 ds))
          else
            (let ds = takeWhile is_digit s in
             if ds = [] then None else Some (digits_val ds))
      | _ \<Rightarrow>
          (let ds = takeWhile is_digit s in
           if ds = [] then None else Some (digits_val ds)))"

definition parseInt :: "string \<Rightarrow> int option" where
  "parseInt str =
     (case dropWhile is_space str of
        [] \<Rightarrow> None
      | c # s \<Rightarrow>
          if c = CHR ''-'' then map_option uminus (parse_digits s)
          else if c = CHR ''+'' then parse_digits s
          else parse_digits (c # s))"

text \<open>
  The program's numbers are doubles. An integer of magnitude at most \<open>2^52\<close> is a
  double, \<^verbatim>\<open>String\<close> prints it as its decimal numeral, \<^verbatim>\<open>parseInt\<close> returns it for a
  numeral of it, and the difference of two such integers is exact. \<open>parseInt\<close> above is
  the integer that the digits denote; \<open>as_number\<close> is the number that the program gets,
  and \<open>prints_exactly\<close> says that \<open>to_string\<close> is what \<^verbatim>\<open>String\<close> returns. Outside the range
  the model has no result.
\<close>

definition in_range :: "int \<Rightarrow> bool" where
  "in_range n = (- (2 ^ 52) \<le> n \<and> n \<le> 2 ^ 52)"

definition as_number :: "int option \<Rightarrow> js_error + int option" where
  "as_number r =
     (case r of
        None \<Rightarrow> Inr None
      | Some n \<Rightarrow> if in_range n then Inr (Some n) else Inl NotModelled)"

fun prints_exactly :: "json \<Rightarrow> bool" where
  "prints_exactly (JNum n) = in_range n"
| "prints_exactly (JArr xs) = list_all prints_exactly xs"
| "prints_exactly v = True"

text \<open>\<^verbatim>\<open>parseInt(x.year || 0)\<close>.\<close>

definition year_number :: "json \<Rightarrow> js_error + int option" where
  "year_number x =
     (case get_prop x ''year'' of
        Inl e \<Rightarrow> Inl e
      | Inr y \<Rightarrow>
          (let v = (if truthy y then the y else JNum 0) in
           if prints_exactly v then as_number (parseInt (to_string v)) else Inl NotModelled))"

definition sortByYear :: "json \<Rightarrow> json \<Rightarrow> js_error + int option" where
  "sortByYear a b =
     (case year_number b of
        Inl e \<Rightarrow> Inl e
      | Inr yb \<Rightarrow>
          (case year_number a of
             Inl e \<Rightarrow> Inl e
           | Inr ya \<Rightarrow>
               Inr (case (yb, ya) of (Some nb, Some na) \<Rightarrow> Some (nb - na) | _ \<Rightarrow> None)))"

text \<open>One category of the publications object, and the three of them in turn.\<close>

definition sort_category :: "(string \<times> json) list \<Rightarrow> string \<Rightarrow> js_error + (string \<times> json) list" where
  "sort_category pubs category =
     (if truthy (map_of pubs category) then
        (case iterate (the (map_of pubs category)) of
           Inl e \<Rightarrow> Inl e
         | Inr entries \<Rightarrow>
             (case array_sort sortByYear entries of
                Inl e \<Rightarrow> Inl e
              | Inr sorted_entries \<Rightarrow> Inr (obj_set pubs category (JArr sorted_entries))))
      else Inr pubs)"

definition sort_publications :: "(string \<times> json) list \<Rightarrow> js_error + (string \<times> json) list" where
  "sort_publications pubs =
     (case sort_category pubs ''books'' of
        Inl e \<Rightarrow> Inl e
      | Inr pubs1 \<Rightarrow>
          (case sort_category pubs1 ''book_chapters'' of
             Inl e \<Rightarrow> Inl e
           | Inr pubs2 \<Rightarrow> sort_category pubs2 ''articles''))"

text \<open>
  The step on the localized document: a \<^verbatim>\<open>publications\<close> value that is not an object has
  none of the three properties and is left as it is.
\<close>

definition shape_publications :: "(string \<times> json) list \<Rightarrow> js_error + (string \<times> json) list" where
  "shape_publications localized =
     (case map_of localized ''publications'' of
        Some (JObj pubs) \<Rightarrow>
          (case sort_publications pubs of
             Inl e \<Rightarrow> Inl e
           | Inr pubs' \<Rightarrow> Inr (obj_set localized ''publications'' (JObj pubs')))
      | _ \<Rightarrow> Inr localized)"

text \<open>A year key: four decimal digits.\<close>

definition year_key :: "string \<Rightarrow> bool" where
  "year_key k = (length k = 4 \<and> list_all is_digit k)"

text \<open>The entries held by the groups, and an entry that is not hidden.\<close>

definition grouped_entries :: "(string \<times> json list) list \<Rightarrow> json set" where
  "grouped_entries g = {p. \<exists>k items. map_of g k = Some items \<and> p \<in> set items}"

definition shown :: "json \<Rightarrow> bool" where
  "shown p = (get_prop p ''visible'' \<noteq> Inr (Some (JBool False)))"

text \<open>
  The numeric year of an entry (0 when \<^verbatim>\<open>parseInt\<close> gives no number), and a list in
  descending order of it.
\<close>

definition year_value :: "json \<Rightarrow> int" where
  "year_value x = (case year_number x of Inr (Some n) \<Rightarrow> n | _ \<Rightarrow> 0)"

definition by_year_desc :: "json list \<Rightarrow> bool" where
  "by_year_desc xs = sorted_wrt (\<lambda>a b. year_value b \<le> year_value a) xs"

text \<open>
  A list whose entries all have a numeric year: \<^verbatim>\<open>parseInt\<close> gives a number for each, and
  not \<^verbatim>\<open>NaN\<close>. The three categories; a category value that the sort meets with numeric
  years only (no value or a falsy one, or a list with numeric years); and the value that
  the stable sort by descending year makes of it.
\<close>

definition numeric_years :: "json list \<Rightarrow> bool" where
  "numeric_years xs =
     list_all (\<lambda>x. case year_number x of Inr (Some n) \<Rightarrow> True | _ \<Rightarrow> False) xs"

definition categories :: "string list" where
  "categories = [''books'', ''book_chapters'', ''articles'']"

definition sortable :: "json option \<Rightarrow> bool" where
  "sortable v = (case v of Some (JArr xs) \<Rightarrow> numeric_years xs | _ \<Rightarrow> \<not> truthy v)"

definition sorted_value :: "json option \<Rightarrow> json option" where
  "sorted_value v =
     (case v of
        Some (JArr xs) \<Rightarrow> Some (JArr (sort_key (\<lambda>x. - year_value x) xs))
      | _ \<Rightarrow> v)"

subsection \<open>The templates\<close>

text \<open>
  Modelled from the spec: the page templates that \<^verbatim>\<open>env.render\<close> runs on the shaped
  document are not among the sources. The spec says of them that section-level records
  (experience entries, education entries, publications, presentations, references) carry
  a \<^verbatim>\<open>visible\<close> flag and that hidden (\<^verbatim>\<open>visible: false\<close>) records are absent from the
  rendered output. The function gives the records of a section list that are left for
  a template to render once the hidden ones are excluded, in the order of the list.
\<close>

definition visible_records :: "json list \<Rightarrow> json list" where
  "visible_records records = filter shown records"

section \<open>The editor service: saving the document\<close>

text \<open>
  The handler of \<^verbatim>\<open>POST /api/data\<close> (\<^verbatim>\<open>server.js\<close> lines 87-115):
  \<^verbatim>\<open>
  try {
      if (fs.existsSync(DATA_FILE)) {
          const backupPath = DATA_FILE.replace('.json', `_backup_${Date.now()}.json`);
          fs.copyFileSync(DATA_FILE, backupPath);
          const backupPattern = /cv_data_backup_\d+\.json$/;
          const backups = fs.readdirSync(BASE_DIR)
              .filter(f => backupPattern.test(f)).sort().reverse();
          backups.slice(5).forEach(backup => { fs.unlinkSync(path.join(BASE_DIR, backup)); });
      }
      fs.writeFileSync(DATA_FILE, JSON.stringify(data, null, 2), 'utf-8');
      res.json({ success: true, message: 'Data saved successfully' });
  } catch (err) { res.status(500).json({ error: 'Failed to save data' }); }
  \<close>
  with \<^verbatim>\<open>BASE_DIR = __dirname\<close> and \<^verbatim>\<open>DATA_FILE = path.join(BASE_DIR, 'cv_data.json')\<close>.
  The state is the base directory: the list of its files, each a name with a content,
  in the order \<^verbatim>\<open>readdirSync\<close> lists them. The clock and the path of the base directory
  are arguments. A path that does not name an entry of the base directory is outside the
  state, and whether a file can be written there is an argument as well. Other input and
  output errors are not modelled.
\<close>

type_synonym 'c dir = "(string \<times> 'c) list"

definition readdir :: "'c dir \<Rightarrow> string list" where
  "readdir fs = map fst fs"

text \<open>\<^verbatim>\<open>writeFileSync\<close> and \<^verbatim>\<open>copyFileSync\<close> replace the content of an existing file.\<close>

definition write_file :: "'c dir \<Rightarrow> string \<Rightarrow> 'c \<Rightarrow> 'c dir" where
  "write_file fs f c =
     (if f \<in> set (readdir fs) then map (\<lambda>(g, c'). if g = f then (g, c) else (g, c')) fs
      else fs @ [(f, c)])"

definition unlink :: "'c dir \<Rightarrow> string \<Rightarrow> 'c dir" where
  "unlink fs f = filter (\<lambda>(g, c). g \<noteq> f) fs"

subsection \<open>Paths\<close>

text \<open>
  \<^verbatim>\<open>__dirname\<close> is an absolute path in normal form: the root \<^verbatim>\<open>/\<close>, or a path with no slash
  at its end. \<^verbatim>\<open>path.join(dir, name)\<close> puts one slash between such a directory and a
  file name.
\<close>

definition dir_prefix :: "string \<Rightarrow> string" where
  "dir_prefix dir = (if dir = ''/'' then dir else dir @ ''/'')"

definition path_join :: "string \<Rightarrow> string \<Rightarrow> string" where
  "path_join dir name = dir_prefix dir @ name"

definition data_name :: string where
  "data_name = ''cv_data.json''"

definition DATA_FILE :: "string \<Rightarrow> string" where
  "DATA_FILE base = path_join base data_name"

text \<open>
  The entry of the base directory that a path names, if it names one: the path is the
  directory, a slash and a name with no slash in it.
\<close>

definition entry_of :: "string \<Rightarrow> string \<Rightarrow> string option" where
  "entry_of base p =
     (let name = drop (length (dir_prefix base)) p in
      if prefix (dir_prefix base) p \<and> name \<noteq> [] \<and> CHR ''/'' \<notin> set name then Some name
      else None)"

text \<open>
  Reading and writing by path. \<^verbatim>\<open>existsSync\<close> and the source of a copy are only ever
  \<^verbatim>\<open>DATA_FILE\<close>, an entry of the base directory. A write to a path outside the base
  directory leaves the base directory as it is; it succeeds when \<open>outside\<close> says so and
  throws otherwise (\<open>None\<close>).
\<close>

definition read_path :: "string \<Rightarrow> 'c dir \<Rightarrow> string \<Rightarrow> 'c option" where
  "read_path base fs p =
     (case entry_of base p of Some name \<Rightarrow> map_of fs name | None \<Rightarrow> None)"

definition write_path ::
  "string \<Rightarrow> (string \<Rightarrow> bool) \<Rightarrow> 'c dir \<Rightarrow> string \<Rightarrow> 'c \<Rightarrow> 'c dir option" where
  "write_path base outside fs p c =
     (case entry_of base p of
        Some name \<Rightarrow> Some (write_file fs name c)
      | None \<Rightarrow> if outside p then Some fs else None)"

text \<open>
  \<^verbatim>\<open>s.replace(pat, rep)\<close> with a string pattern: the first occurrence is replaced. The
  clock \<^verbatim>\<open>Date.now()\<close> is a whole number of milliseconds, of magnitude at most
  \<open>8.64 * 10^15\<close>, and the template literal prints it as its decimal numeral.
\<close>

fun replace_first :: "string \<Rightarrow> string \<Rightarrow> string \<Rightarrow> string" where
  "replace_first pat rep [] = (if pat = [] then rep else [])"
| "replace_first pat rep (c # s) =
     (if prefix pat (c # s) then rep @ drop (length pat) (c # s)
      else c # replace_first pat rep s)"

definition backupPath :: "string \<Rightarrow> int \<Rightarrow> string" where
  "backupPath base now =
     replace_first ''.json'' (''_backup_'' @ dec now @ ''.json'') (DATA_FILE base)"

text \<open>
  Whether a pattern occurs in a string, and the name that the backup has when
  \<^verbatim>\<open>.json\<close> does not occur in the path of the base directory: the replacement then falls
  in the file name (\<open>backupPath_plain\<close> below).
\<close>

fun occurs :: "string \<Rightarrow> string \<Rightarrow> bool" where
  "occurs pat [] = (pat = [])"
| "occurs pat (c # s) = (prefix pat (c # s) \<or> occurs pat s)"

definition backup_name :: "int \<Rightarrow> string" where
  "backup_name now = replace_first ''.json'' (''_backup_'' @ dec now @ ''.json'') data_name"

subsection \<open>The handler\<close>

text \<open>
  \<^verbatim>\<open>/cv_data_backup_\d+\.json$/.test(f)\<close>: the name ends with \<^verbatim>\<open>cv_data_backup_\<close>, one or
  more digits and \<^verbatim>\<open>.json\<close>. The pattern is not anchored at the start of the name. The
  test reads the name from its end.
\<close>

definition backupPattern :: "string \<Rightarrow> bool" where
  "backupPattern f =
     (let r = rev f in
      prefix (rev ''.json'') r \<and>
      (let r' = drop 5 r in
       takeWhile is_digit r' \<noteq> [] \<and> prefix (rev ''cv_data_backup_'') (dropWhile is_digit r')))"

text \<open>
  Keeping the last five backups: the names sorted as strings, the greatest first. A name
  that \<^verbatim>\<open>readdirSync\<close> returns has no slash, and \<^verbatim>\<open>path.join(BASE_DIR, backup)\<close> is the
  entry of that name.
\<close>

definition prune :: "'c dir \<Rightarrow> 'c dir" where
  "prune fs = foldl unlink fs (drop 5 (rev (sort (filter backupPattern (readdir fs)))))"

text \<open>
  The response, and the handler: an exception at any step is caught and answered with
  status 500, and the steps before it stay done.
\<close>

datatype response = Saved | Failed

definition save ::
  "string \<Rightarrow> (string \<Rightarrow> bool) \<Rightarrow> 'c dir \<Rightarrow> int \<Rightarrow> 'c \<Rightarrow> response \<times> 'c dir" where
  "save base outside fs now body =
     (case (case read_path base fs (DATA_FILE base) of
              None \<Rightarrow> Some fs
            | Some current \<Rightarrow>
                (case write_path base outside fs (backupPath base now) current of
                   None \<Rightarrow> None
                 | Some fs1 \<Rightarrow> Some (prune fs1))) of
        None \<Rightarrow> (Failed, fs)
      | Some fs2 \<Rightarrow>
          (case write_path base outside fs2 (DATA_FILE base) body of
             None \<Rightarrow> (Failed, fs2)
           | Some fs3 \<Rightarrow> (Saved, fs3)))"

text \<open>Successive requests, each at its time with its body; the directory after them.\<close>

definition saves ::
  "string \<Rightarrow> (string \<Rightarrow> bool) \<Rightarrow> 'c dir \<Rightarrow> (int \<times> 'c) list \<Rightarrow> 'c dir" where
  "saves base outside fs reqs =
     foldl (\<lambda>fs (now, body). snd (save base outside fs now body)) fs reqs"

text \<open>The backups of a directory.\<close>

definition backups :: "'c dir \<Rightarrow> string list" where
  "backups fs = filter backupPattern (readdir fs)"

section \<open>Properties of the localizer\<close>

lemma insert_index_append:
  "\<forall>(k', v') \<in> set obj. is_array_index k' \<and> digits_val k' < digits_val k
   \<Longrightarrow> insert_index k v obj = obj @ [(k, v)]"
  by (induction obj) auto

lemma obj_set_append:
  assumes "k \<notin> fst ` set obj"
    and "own_key_order (map fst obj @ [k])"
  shows "obj_set obj k v = obj @ [(k, v)]"
proof (cases "is_array_index k")
  case True
  from assms(2) have "\<forall>a \<in> set (map fst obj). is_array_index a \<and> digits_val a < digits_val k"
    using True by (auto simp: own_key_order_def sorted_wrt_append)
  then have "\<forall>(k', v') \<in> set obj. is_array_index k' \<and> digits_val k' < digits_val k"
    by auto
  then show ?thesis
    using assms(1) True by (simp add: obj_set_def insert_index_append)
next
  case False
  then show ?thesis using assms(1) by (simp add: obj_set_def)
qed

lemma own_key_order_prefix:
  "own_key_order (xs @ ys) \<Longrightarrow> own_key_order xs"
  by (simp add: own_key_order_def sorted_wrt_append)

lemma assign_fold_append:
  "distinct (map fst (acc @ es)) \<Longrightarrow> ''__proto__'' \<notin> set (map fst es)
   \<Longrightarrow> own_key_order (map fst (acc @ es))
   \<Longrightarrow> foldl (\<lambda>res (k, v). assign res k v) acc es = acc @ es"
proof (induction es arbitrary: acc)
  case Nil
  then show ?case by simp
next
  case (Cons e es)
  obtain k v where e: "e = (k, v)" by (cases e)
  have notin: "k \<notin> fst ` set acc"
    using Cons.prems(1) by (auto simp: e)
  have "own_key_order ((map fst acc @ [k]) @ map fst es)"
    using Cons.prems(3) by (simp add: e)
  then have ord: "own_key_order (map fst acc @ [k])"
    by (rule own_key_order_prefix)
  have step: "assign acc k v = acc @ [(k, v)]"
    using Cons.prems(2) notin ord by (auto simp: assign_def e obj_set_append)
  have "foldl (\<lambda>res (k, v). assign res k v) (acc @ [(k, v)]) es = (acc @ [(k, v)]) @ es"
    using Cons.prems by (intro Cons.IH) (simp_all add: e)
  then show ?case by (simp add: e step)
qed

lemma assign_all_id:
  "distinct (map fst es) \<Longrightarrow> ''__proto__'' \<notin> set (map fst es)
   \<Longrightarrow> own_key_order (map fst es) \<Longrightarrow> assign_all es = es"
  unfolding assign_all_def using assign_fold_append [of "[]" es] by simp

lemma localizeData_unresolvable:
  "\<not> resolvable kvs lang \<Longrightarrow>
   localizeData (JObj kvs) lang
     = JObj (assign_all (map (\<lambda>(key, v). (key, localizeData v lang)) kvs))"
  by (auto simp: resolvable_def split: option.splits json.splits)

text \<open>
  An object whose own property \<open>lang\<close> holds a string or an array is resolved to the
  value of that property.
\<close>

lemma localizeData_resolves:
  "map_of kvs lang = Some v \<Longrightarrow> is_text v \<Longrightarrow> localizeData (JObj kvs) lang = v"
  by (cases v) simp_all

text \<open>
  C2, as amended: on a parsed document with no node resolvable for the language, the
  localizer returns the document itself.
\<close>

theorem localizeData_noop:
  "wf_json d \<Longrightarrow> \<not> has_bilingual d lang \<Longrightarrow> localizeData d lang = d"
proof (induction d)
  case (JArr xs)
  have "map (\<lambda>item. localizeData item lang) xs = xs"
  proof (rule map_idI)
    fix x assume "x \<in> set xs"
    with JArr show "localizeData x lang = x"
      by (auto simp: list_all_iff list_ex_iff)
  qed
  then show ?case by simp
next
  case (JObj kvs)
  have unres: "\<not> resolvable kvs lang"
    using JObj.prems(2) by simp
  have "map (\<lambda>(key, v). (key, localizeData v lang)) kvs = kvs"
  proof (rule map_idI)
    fix e assume e: "e \<in> set kvs"
    obtain k v where kv: "e = (k, v)" by (cases e)
    have "v \<in> Basic_BNFs.snds e" by (simp add: kv)
    moreover have "wf_json v" "\<not> has_bilingual v lang"
      using JObj.prems e kv by (auto simp: list_all_iff list_ex_iff)
    ultimately have "localizeData v lang = v"
      using JObj.IH e by blast
    then show "(case e of (key, v) \<Rightarrow> (key, localizeData v lang)) = e"
      by (simp add: kv)
  qed
  moreover have "assign_all kvs = kvs"
    using JObj.prems(1) by (intro assign_all_id) simp_all
  ultimately show ?case
    using localizeData_unresolvable [OF unres] by simp
qed simp_all

theorem localizeData_noop_witness:
  "wf_json (JObj [(''7'', JNum 1), (''name'', JStr ''A''), (''tags'', JArr [JStr ''x'', JNull])])
   \<and> \<not> has_bilingual
         (JObj [(''7'', JNum 1), (''name'', JStr ''A''), (''tags'', JArr [JStr ''x'', JNull])]) ''en''
   \<and> localizeData
         (JObj [(''7'', JNum 1), (''name'', JStr ''A''), (''tags'', JArr [JStr ''x'', JNull])]) ''en''
       = JObj [(''7'', JNum 1), (''name'', JStr ''A''), (''tags'', JArr [JStr ''x'', JNull])]"
proof -
  let ?d = "JObj [(''7'', JNum 1), (''name'', JStr ''A''), (''tags'', JArr [JStr ''x'', JNull])]"
  have wf: "wf_json ?d"
    by (simp add: own_key_order_def is_array_index_def is_digit_def digits_val_def digit_val_def)
  have nb: "\<not> has_bilingual ?d ''en''"
    by (simp add: resolvable_def)
  from localizeData_noop [OF wf nb] wf nb show ?thesis by blast
qed

text \<open>
  C2, the counterexample: localizing twice is not localizing once. In
  \<^verbatim>\<open>{"en": {"en": "x"}}\<close> the key \<^verbatim>\<open>en\<close> holds an object, so the first pass rebuilds the
  node as \<^verbatim>\<open>{"en": "x"}\<close>, which the second pass resolves to \<^verbatim>\<open>"x"\<close>.
\<close>

theorem localizeData_twice_counterexample:
  "localizeData (localizeData (JObj [(''en'', JObj [(''en'', JStr ''x'')])]) ''en'') ''en''
     \<noteq> localizeData (JObj [(''en'', JObj [(''en'', JStr ''x'')])]) ''en''"
  by (simp add: assign_all_def assign_def obj_set_def)

section \<open>Properties of the site builder\<close>

text \<open>
  C7, the counterexample: the Dutch CV page is written to \<^verbatim>\<open>cv/nl.html\<close>, which is not
  under the directory \<^verbatim>\<open>nl\<close>.
\<close>

theorem pages_under_lang_dir_counterexample:
  "\<not> (\<forall>lang \<in> set LANGUAGES. lang \<noteq> ''en'' \<longrightarrow>
        (\<forall>(template, p) \<in> set (pages_of lang). under_lang_dir lang p))"
  by (simp add: LANGUAGES_def pages_of_def under_lang_dir_def cvPagePath_def)

text \<open>
  C7, as amended: the languages are \<^verbatim>\<open>en\<close> and \<^verbatim>\<open>nl\<close>; when every rendering succeeds
  the builder writes eight files, at eight different paths: for \<^verbatim>\<open>en\<close> the four pages
  \<^verbatim>\<open>index.html\<close>, \<^verbatim>\<open>cv/index.html\<close>, \<^verbatim>\<open>publications/index.html\<close> and
  \<^verbatim>\<open>presentations/index.html\<close>; for \<^verbatim>\<open>nl\<close> the home page \<^verbatim>\<open>nl/index.html\<close> under the
  language's directory, and the three others as \<^verbatim>\<open>cv/nl.html\<close>, \<^verbatim>\<open>publications/nl.html\<close>
  and \<^verbatim>\<open>presentations/nl.html\<close>, named by the language inside the page's directory.
\<close>

theorem generatePages_paths:
  assumes "\<And>t l. render t l = Inr (h t l)"
  shows "LANGUAGES = [''en'', ''nl'']
    \<and> generatePages render out =
        (out([''index.html''] \<mapsto> h ''portfolio_home.html'' ''en'',
             [''cv'', ''index.html''] \<mapsto> h ''portfolio_cv.html'' ''en'',
             [''publications'', ''index.html''] \<mapsto> h ''portfolio_publications.html'' ''en'',
             [''presentations'', ''index.html''] \<mapsto> h ''portfolio_presentations.html'' ''en'',
             [''nl'', ''index.html''] \<mapsto> h ''portfolio_home.html'' ''nl'',
             [''cv'', ''nl.html''] \<mapsto> h ''portfolio_cv.html'' ''nl'',
             [''publications'', ''nl.html''] \<mapsto> h ''portfolio_publications.html'' ''nl'',
             [''presentations'', ''nl.html''] \<mapsto> h ''portfolio_presentations.html'' ''nl''),
         None)
    \<and> distinct (map snd (concat (map pages_of LANGUAGES)))"
proof -
  have "generatePages render out =
        (out([''index.html''] \<mapsto> h ''portfolio_home.html'' ''en'',
             [''cv'', ''index.html''] \<mapsto> h ''portfolio_cv.html'' ''en'',
             [''publications'', ''index.html''] \<mapsto> h ''portfolio_publications.html'' ''en'',
             [''presentations'', ''index.html''] \<mapsto> h ''portfolio_presentations.html'' ''en'',
             [''nl'', ''index.html''] \<mapsto> h ''portfolio_home.html'' ''nl'',
             [''cv'', ''nl.html''] \<mapsto> h ''portfolio_cv.html'' ''nl'',
             [''publications'', ''nl.html''] \<mapsto> h ''portfolio_publications.html'' ''nl'',
             [''presentations'', ''nl.html''] \<mapsto> h ''portfolio_presentations.html'' ''nl''),
         None)"
    by (simp add: generatePages_def LANGUAGES_def assms
        pages_of_def homePath_def cvPagePath_def pubsPath_def presPath_def)
  moreover have "distinct (map snd (concat (map pages_of LANGUAGES)))"
    by (simp add: LANGUAGES_def pages_of_def homePath_def cvPagePath_def pubsPath_def
        presPath_def)
  ultimately show ?thesis
    by (simp add: LANGUAGES_def)
qed

theorem generatePages_paths_witness:
  "fst (generatePages (\<lambda>t l. Inr (t @ ''/'' @ l)) Map.empty) [''cv'', ''nl.html'']
     = Some ''portfolio_cv.html/nl''
   \<and> fst (generatePages (\<lambda>t l. Inr (t @ ''/'' @ l)) Map.empty) [''nl'', ''cv'', ''index.html'']
     = (None :: string option)
   \<and> snd (generatePages (\<lambda>t l. Inr (t @ ''/'' @ l)) Map.empty) = (None :: js_error option)"
  using generatePages_paths [of "\<lambda>t l. Inr (t @ ''/'' @ l)" "\<lambda>t l. t @ ''/'' @ l" Map.empty]
  by simp

section \<open>Properties of the exporters\<close>

lemma await_all_trace:
  "await_all thr cs =
     (map Call (takeWhile (\<lambda>c. thr c = None) cs)
        @ (case find (\<lambda>c. thr c \<noteq> None) cs of None \<Rightarrow> [] | Some c \<Rightarrow> [Call c]),
      (case find (\<lambda>c. thr c \<noteq> None) cs of None \<Rightarrow> None | Some c \<Rightarrow> thr c))"
  by (induction cs) (auto split: option.splits prod.splits)

lemma calls_of_append: "calls_of (xs @ ys) = calls_of xs @ calls_of ys"
  by (simp add: calls_of_def)

lemma calls_of_map_Call: "calls_of (map Call cs) = cs"
  by (induction cs) (simp_all add: calls_of_def)

lemma await_all_calls_prefix: "prefix (calls_of (fst (await_all thr cs))) cs"
proof (induction cs)
  case Nil
  then show ?case by (simp add: calls_of_def)
next
  case (Cons c cs)
  then show ?case
    by (cases "thr c"; cases "await_all thr cs") (simp_all add: calls_of_def)
qed

lemma distinct_export_calls: "distinct export_calls"
  by (simp add: export_calls_def)

lemma prefix_distinct: "prefix xs ys \<Longrightarrow> distinct ys \<Longrightarrow> distinct xs"
  by (auto simp: prefix_def)

lemma await_all_once: "distinct (calls_of (fst (await_all thr export_calls)))"
  using await_all_calls_prefix distinct_export_calls by (rule prefix_distinct)

text \<open>
  C8, the counterexample: when puppeteer cannot be loaded, the command line tool's
  \<^verbatim>\<open>generatePDF\<close> does not throw to its caller; it prints the message and ends the process
  with status 1.
\<close>

theorem generatePDF_cli_counterexample:
  "generatePDF_cli \<lparr>require_ok = False, throws = (\<lambda>c. None), pdf_bytes = ''%PDF''\<rparr> ''cv.pdf''
     = ([ConsoleError ''Error: puppeteer not installed. Run: npm install puppeteer''], Exited 1)
   \<and> \<not> is_thrown (snd (generatePDF_cli
          \<lparr>require_ok = False, throws = (\<lambda>c. None), pdf_bytes = ''%PDF''\<rparr> ''cv.pdf''))"
  by (simp add: generatePDF_cli_def not_installed_def)

text \<open>
  C8, as amended. When puppeteer cannot be loaded, the two library exporters throw an
  error with the message \<^verbatim>\<open>puppeteer not installed. Run: npm install puppeteer\<close> and make
  no engine call, and the command line exporter prints that message and ends the process
  with status 1. When it can be loaded, each exporter makes the engine calls in order,
  each at most once: if none throws it returns, and otherwise it stops at the first call
  that throws and throws that very error to its caller.
\<close>

theorem exporters_no_retry:
  "(\<not> require_ok env \<longrightarrow>
      generatePDFBuffer env = ([], Thrown not_installed)
      \<and> generatePDF_lib env = ([], Thrown not_installed)
      \<and> generatePDF_cli env outputPath = ([ConsoleError (''Error: '' @ not_installed)], Exited 1))
   \<and> (require_ok env \<longrightarrow> find (\<lambda>c. throws env c \<noteq> None) export_calls = None \<longrightarrow>
      generatePDFBuffer env = (map Call export_calls, Returned (pdf_bytes env))
      \<and> generatePDF_lib env = (map Call export_calls, Returned (pdf_bytes env))
      \<and> generatePDF_cli env outputPath
          = (map Call export_calls @ [ConsoleLog (''  PDF generated: '' @ outputPath)], Returned ()))
   \<and> (require_ok env \<longrightarrow> find (\<lambda>c. throws env c \<noteq> None) export_calls = Some c \<longrightarrow>
      throws env c = Some e \<longrightarrow>
      generatePDFBuffer env
          = (map Call (takeWhile (\<lambda>c. throws env c = None) export_calls) @ [Call c], Thrown e)
      \<and> generatePDF_lib env
          = (map Call (takeWhile (\<lambda>c. throws env c = None) export_calls) @ [Call c], Thrown e)
      \<and> generatePDF_cli env outputPath
          = (map Call (takeWhile (\<lambda>c. throws env c = None) export_calls) @ [Call c], Thrown e))
   \<and> distinct (calls_of (fst (generatePDFBuffer env)))
   \<and> distinct (calls_of (fst (generatePDF_lib env)))
   \<and> distinct (calls_of (fst (generatePDF_cli env outputPath)))"
proof -
  have a: "\<not> require_ok env \<longrightarrow>
      generatePDFBuffer env = ([], Thrown not_installed)
      \<and> generatePDF_lib env = ([], Thrown not_installed)
      \<and> generatePDF_cli env outputPath = ([ConsoleError (''Error: '' @ not_installed)], Exited 1)"
    by (simp add: generatePDFBuffer_def generatePDF_lib_def generatePDF_cli_def)
  have b: "require_ok env \<longrightarrow> find (\<lambda>c. throws env c \<noteq> None) export_calls = None \<longrightarrow>
      generatePDFBuffer env = (map Call export_calls, Returned (pdf_bytes env))
      \<and> generatePDF_lib env = (map Call export_calls, Returned (pdf_bytes env))
      \<and> generatePDF_cli env outputPath
          = (map Call export_calls @ [ConsoleLog (''  PDF generated: '' @ outputPath)], Returned ())"
  proof (intro impI)
    assume r: "require_ok env" and f: "find (\<lambda>c. throws env c \<noteq> None) export_calls = None"
    from f have tw: "takeWhile (\<lambda>c. throws env c = None) export_calls = export_calls"
      by (auto simp: find_None_iff intro: takeWhile_eq_all_conv [THEN iffD2])
    have "await_all (throws env) export_calls = (map Call export_calls, None)"
      unfolding await_all_trace tw f by simp
    then show "generatePDFBuffer env = (map Call export_calls, Returned (pdf_bytes env))
      \<and> generatePDF_lib env = (map Call export_calls, Returned (pdf_bytes env))
      \<and> generatePDF_cli env outputPath
          = (map Call export_calls @ [ConsoleLog (''  PDF generated: '' @ outputPath)], Returned ())"
      using r by (simp add: generatePDFBuffer_def generatePDF_lib_def generatePDF_cli_def)
  qed
  have c: "require_ok env \<longrightarrow> find (\<lambda>c. throws env c \<noteq> None) export_calls = Some c \<longrightarrow>
      throws env c = Some e \<longrightarrow>
      generatePDFBuffer env
          = (map Call (takeWhile (\<lambda>c. throws env c = None) export_calls) @ [Call c], Thrown e)
      \<and> generatePDF_lib env
          = (map Call (takeWhile (\<lambda>c. throws env c = None) export_calls) @ [Call c], Thrown e)
      \<and> generatePDF_cli env outputPath
          = (map Call (takeWhile (\<lambda>c. throws env c = None) export_calls) @ [Call c], Thrown e)"
    by (simp add: generatePDFBuffer_def generatePDF_lib_def generatePDF_cli_def await_all_trace)
  have d: "distinct (calls_of (fst (generatePDFBuffer env)))"
    using await_all_once [of "throws env"]
    by (cases "await_all (throws env) export_calls")
       (auto simp: generatePDFBuffer_def calls_of_def split: option.splits)
  have e: "distinct (calls_of (fst (generatePDF_lib env)))"
    using await_all_once [of "throws env"]
    by (cases "await_all (throws env) export_calls")
       (auto simp: generatePDF_lib_def calls_of_def split: option.splits)
  have f: "distinct (calls_of (fst (generatePDF_cli env outputPath)))"
    using await_all_once [of "throws env"]
    by (cases "await_all (throws env) export_calls")
       (auto simp: generatePDF_cli_def calls_of_def split: option.splits)
  from a b c d e f show ?thesis by blast
qed

theorem exporters_no_retry_witness:
  "generatePDFBuffer \<lparr>require_ok = False, throws = (\<lambda>c. None), pdf_bytes = ''%PDF''\<rparr>
     = ([], Thrown ''puppeteer not installed. Run: npm install puppeteer'')
   \<and> generatePDFBuffer \<lparr>require_ok = True, throws = (\<lambda>c. None), pdf_bytes = ''%PDF''\<rparr>
     = ([Call Launch, Call NewPage, Call SetViewport, Call SetContent, Call FontsReady,
         Call Pdf, Call Close], Returned ''%PDF'')
   \<and> generatePDFBuffer
        \<lparr>require_ok = True, throws = (\<lambda>c. if c = SetContent then Some ''timeout'' else None),
         pdf_bytes = ''%PDF''\<rparr>
     = ([Call Launch, Call NewPage, Call SetViewport, Call SetContent], Thrown ''timeout'')"
proof -
  let ?e0 = "\<lparr>require_ok = False, throws = (\<lambda>c. None), pdf_bytes = ''%PDF''\<rparr>"
  let ?e1 = "\<lparr>require_ok = True, throws = (\<lambda>c. None), pdf_bytes = ''%PDF''\<rparr>"
  let ?e2 = "\<lparr>require_ok = True, throws = (\<lambda>c. if c = SetContent then Some ''timeout'' else None),
             pdf_bytes = ''%PDF''\<rparr>"
  have "generatePDFBuffer ?e0 = ([], Thrown not_installed)"
    using exporters_no_retry [of ?e0] by simp
  moreover have "generatePDFBuffer ?e1 = (map Call export_calls, Returned ''%PDF'')"
    using exporters_no_retry [of ?e1] by (simp add: export_calls_def)
  moreover have "generatePDFBuffer ?e2
      = (map Call (takeWhile (\<lambda>c. throws ?e2 c = None) export_calls) @ [Call SetContent],
         Thrown ''timeout'')"
    using exporters_no_retry [of ?e2 _ SetContent "''timeout''"] by (simp add: export_calls_def)
  ultimately show ?thesis
    by (simp add: not_installed_def export_calls_def)
qed

section \<open>Digit strings\<close>

lemma foldl_digits_acc:
  "foldl (\<lambda>n c. 10 * n + digit_val c) n s = n * 10 ^ length s + foldl (\<lambda>n c. 10 * n + digit_val c) 0 s"
proof (induction s arbitrary: n)
  case Nil
  then show ?case by simp
next
  case (Cons c s)
  show ?case
    using Cons.IH [of "10 * n + digit_val c"] Cons.IH [of "digit_val c"]
    by (simp add: algebra_simps)
qed

lemma digits_val_Cons:
  "digits_val (c # s) = digit_val c * 10 ^ length s + digits_val s"
  using foldl_digits_acc [of "digit_val c" s] by (simp add: digits_val_def)

lemma digits_val_Nil: "digits_val [] = 0"
  by (simp add: digits_val_def)

lemma digit_val_range: "is_digit c \<Longrightarrow> 0 \<le> digit_val c \<and> digit_val c \<le> 9"
  by (auto simp: is_digit_def digit_val_def)

lemma digits_val_bound:
  "list_all is_digit s \<Longrightarrow> 0 \<le> digits_val s \<and> digits_val s < 10 ^ length s"
proof (induction s)
  case Nil
  then show ?case by (simp add: digits_val_Nil)
next
  case (Cons c s)
  define P :: int where "P = 10 ^ length s"
  from Cons have d: "0 \<le> digit_val c" "digit_val c \<le> 9"
    and ih: "0 \<le> digits_val s" "digits_val s < P"
    using digit_val_range [of c] by (auto simp: P_def)
  have P: "0 < P" by (simp add: P_def)
  have "digit_val c * P \<le> 9 * P"
    using d(2) P by (intro mult_right_mono) auto
  moreover have "0 \<le> digit_val c * P"
    using d(1) P by simp
  ultimately have "0 \<le> digit_val c * P + digits_val s \<and> digit_val c * P + digits_val s < 10 * P"
    using ih by linarith
  then show ?case
    by (simp add: digits_val_Cons P_def)
qed

lemma char_less_digit_val: "(a < b) = (digit_val a < digit_val b)"
proof -
  have "(of_char a :: int) = int (of_char a)" "(of_char b :: int) = int (of_char b)"
    by (simp_all add: of_nat_of_char)
  then show ?thesis
    by (simp add: less_char_def digit_val_def)
qed

lemma char_eq_digit_val: "(a = b) = (digit_val a = digit_val b)"
  by (auto simp: digit_val_def)

lemma digits_less_iff:
  "length s = length t \<Longrightarrow> list_all is_digit s \<Longrightarrow> list_all is_digit t
   \<Longrightarrow> (s < t) = (digits_val s < digits_val t)"
proof (induction s t rule: list_induct2)
  case Nil
  then show ?case by (simp add: digits_val_Nil)
next
  case (Cons a s b t)
  define P :: int where "P = 10 ^ length s"
  have len: "length t = length s" using Cons.hyps by simp
  have bs: "0 \<le> digits_val s" "digits_val s < P"
    using digits_val_bound [of s] Cons.prems by (auto simp: P_def)
  have bt: "0 \<le> digits_val t" "digits_val t < P"
    using digits_val_bound [of t] Cons.prems len by (auto simp: P_def)
  have ih: "(s < t) = (digits_val s < digits_val t)"
    using Cons by simp
  have lt: "digit_val a < digit_val b \<Longrightarrow> digit_val a * P + digits_val s < digit_val b * P + digits_val t"
  proof -
    assume "digit_val a < digit_val b"
    then have "(digit_val a + 1) * P \<le> digit_val b * P"
      using bs by (intro mult_right_mono) auto
    then show ?thesis using bs bt by (simp add: algebra_simps)
  qed
  have gt: "digit_val b < digit_val a \<Longrightarrow> \<not> digit_val a * P + digits_val s < digit_val b * P + digits_val t"
  proof -
    assume "digit_val b < digit_val a"
    then have "(digit_val b + 1) * P \<le> digit_val a * P"
      using bs by (intro mult_right_mono) auto
    then show ?thesis using bs bt by (simp add: algebra_simps)
  qed
  show ?case
    using lt gt ih
    by (cases "digit_val a < digit_val b"; cases "digit_val b < digit_val a")
       (auto simp: digits_val_Cons len P_def char_less_digit_val char_eq_digit_val)
qed

section \<open>Properties of the grouping by year\<close>


lemma match_4digits_year_key: "match_4digits s = Some y \<Longrightarrow> year_key y"
  by (induction s rule: match_4digits.induct) (auto simp: year_key_def split: if_splits)

lemma year_of_key: "year_of p = Inr y \<Longrightarrow> year_key y \<or> y = ''Other''"
  by (auto simp: year_of_def match_4digits_year_key split: sum.splits if_splits option.splits json.splits)

lemma key_number_year_key: "year_key k \<Longrightarrow> key_number k = Some (digits_val k)"
  by (auto simp: year_key_def key_number_def)

text \<open>
  C4, the counterexample: the comparator does not order \<^verbatim>\<open>Other\<close> against a year as the
  descending lexicographic order does. Lexicographically \<^verbatim>\<open>2024\<close> is below \<^verbatim>\<open>Other\<close>, so
  the descending order puts \<^verbatim>\<open>Other\<close> first; the comparator subtracts numbers, gets
  \<^verbatim>\<open>NaN\<close>, and leaves the two as they are. On the keys of the example the sort gives
  \<^verbatim>\<open>2025, 2024, Other\<close>, and the descending lexicographic order is
  \<^verbatim>\<open>Other, 2025, 2024\<close>.
\<close>

theorem year_desc_counterexample:
  "\<not> (is_negative (year_desc ''Other'' ''2024'') \<longleftrightarrow> ''2024'' < ''Other'')
   \<and> year_desc ''Other'' ''2024'' = None
   \<and> array_sort (\<lambda>a b. Inr (year_desc a b)) [''2024'', ''2025'', ''Other'']
       = Inr [''2025'', ''2024'', ''Other'']
   \<and> rev (sort [''2024'', ''2025'', ''Other'']) = [''Other'', ''2025'', ''2024'']"
  by code_simp

text \<open>
  C4, as amended: the comparator is the numeric difference of the two keys. On two keys
  that are digit strings it is the difference of their values; on two four-digit year
  keys this orders exactly as the descending lexicographic comparison; and when a key is
  not a number, as \<^verbatim>\<open>Other\<close>, the result is \<^verbatim>\<open>NaN\<close>, which orders nothing.
\<close>

theorem year_desc_numeric:
  "(key_number a = Some na \<longrightarrow> key_number b = Some nb \<longrightarrow> year_desc a b = Some (nb - na))
   \<and> (key_number a = None \<or> key_number b = None \<longrightarrow> year_desc a b = None)
   \<and> key_number ''Other'' = None
   \<and> (year_key a \<longrightarrow> year_key b \<longrightarrow>
        year_desc a b = Some (digits_val b - digits_val a)
        \<and> (is_negative (year_desc a b) \<longleftrightarrow> b < a))"
proof -
  have 1: "key_number a = Some na \<longrightarrow> key_number b = Some nb \<longrightarrow> year_desc a b = Some (nb - na)"
    by (simp add: year_desc_def)
  have 2: "key_number a = None \<or> key_number b = None \<longrightarrow> year_desc a b = None"
    by (auto simp: year_desc_def split: option.splits)
  have 3: "key_number ''Other'' = None"
    by (simp add: key_number_def is_digit_def)
  have 4: "year_key a \<longrightarrow> year_key b \<longrightarrow>
        year_desc a b = Some (digits_val b - digits_val a)
        \<and> (is_negative (year_desc a b) \<longleftrightarrow> b < a)"
  proof (intro impI)
    assume a: "year_key a" and b: "year_key b"
    have "(b < a) = (digits_val b < digits_val a)"
      using a b by (intro digits_less_iff) (simp_all add: year_key_def)
    then show "year_desc a b = Some (digits_val b - digits_val a)
        \<and> (is_negative (year_desc a b) \<longleftrightarrow> b < a)"
      using a b by (simp add: year_desc_def key_number_year_key)
  qed
  from 1 2 3 4 show ?thesis by blast
qed

theorem year_desc_numeric_witness:
  "year_key ''2025'' \<and> year_key ''2024''
   \<and> year_desc ''2025'' ''2024'' = Some (- 1) \<and> ''2024'' < ''2025''
   \<and> year_desc ''2024'' ''Other'' = None"
proof -
  have k: "year_key ''2025''" "year_key ''2024''"
    by (simp_all add: year_key_def is_digit_def)
  have d: "digits_val ''2024'' - digits_val ''2025'' = - 1"
    by (simp add: digits_val_def digit_val_def)
  have "key_number ''Other'' = None"
    using year_desc_numeric [of "''2024''" 0 "''Other''" 0] by blast
  then have "year_desc ''2024'' ''Other'' = None"
    using year_desc_numeric [of "''2024''" 0 "''Other''" 0] by blast
  moreover have "year_desc ''2025'' ''2024'' = Some (- 1) \<and> ''2024'' < ''2025''"
    using year_desc_numeric [of "''2025''" 0 "''2024''" 0] k d by simp
  ultimately show ?thesis using k by simp
qed

lemma map_of_update_at:
  "map_of (map (\<lambda>(k', v'). if k' = k then (k', v) else (k', v')) obj) x
     = (if x = k \<and> k \<in> fst ` set obj then Some v else map_of obj x)"
proof (induction obj)
  case Nil
  then show ?case by simp
next
  case (Cons e obj)
  obtain a b where e: "e = (a, b)" by (cases e)
  show ?case
    using Cons.IH by (cases "a = k"; cases "x = k") (simp_all add: e)
qed

lemma map_of_insert_index_at:
  "k \<notin> fst ` set obj \<Longrightarrow>
   map_of (insert_index k v obj) x = (if x = k then Some v else map_of obj x)"
proof (induction obj)
  case Nil
  then show ?case by simp
next
  case (Cons e obj)
  obtain a b where e: "e = (a, b)" by (cases e)
  from Cons.prems have "k \<notin> fst ` set obj" "a \<noteq> k" by (auto simp: e)
  then show ?case
    using Cons.IH by (auto simp: e)
qed

lemma map_of_append_at:
  assumes "k \<notin> fst ` set obj"
  shows "map_of (obj @ [(k, v)]) x = (if x = k then Some v else map_of obj x)"
proof -
  have "map_of obj k = None"
    using assms by (simp add: map_of_eq_None_iff)
  then show ?thesis
    by (simp add: map_add_def split: option.splits)
qed

lemma map_of_obj_set: "map_of (obj_set obj k v) x = (if x = k then Some v else map_of obj x)"
  by (simp add: obj_set_def map_of_update_at map_of_insert_index_at map_of_append_at
      del: map_of_append)


lemma in_grouped_entries:
  "p \<in> grouped_entries g \<longleftrightarrow> (\<exists>k items. map_of g k = Some items \<and> p \<in> set items)"
  by (simp add: grouped_entries_def)

lemma in_grouped_entries_obj_set:
  "q \<in> grouped_entries (obj_set g y its) \<longleftrightarrow>
     q \<in> set its \<or> (\<exists>k items. k \<noteq> y \<and> map_of g k = Some items \<and> q \<in> set items)"
proof
  assume "q \<in> grouped_entries (obj_set g y its)"
  then obtain k items where ki: "map_of (obj_set g y its) k = Some items" "q \<in> set items"
    unfolding in_grouped_entries by blast
  show "q \<in> set its \<or> (\<exists>k items. k \<noteq> y \<and> map_of g k = Some items \<and> q \<in> set items)"
  proof (cases "k = y")
    case True
    with ki show ?thesis by (simp add: map_of_obj_set)
  next
    case False
    with ki have "map_of g k = Some items" by (simp add: map_of_obj_set)
    with False ki(2) show ?thesis by blast
  qed
next
  assume a: "q \<in> set its \<or> (\<exists>k items. k \<noteq> y \<and> map_of g k = Some items \<and> q \<in> set items)"
  show "q \<in> grouped_entries (obj_set g y its)"
  proof (cases "q \<in> set its")
    case True
    have "map_of (obj_set g y its) y = Some its" by (simp add: map_of_obj_set)
    with True show ?thesis unfolding in_grouped_entries by blast
  next
    case False
    with a obtain k items where ki: "k \<noteq> y" "map_of g k = Some items" "q \<in> set items"
      by blast
    then have "map_of (obj_set g y its) k = Some items" by (simp add: map_of_obj_set)
    with ki(3) show ?thesis unfolding in_grouped_entries by blast
  qed
qed

lemma in_grouped_entries_split:
  "q \<in> grouped_entries g \<longleftrightarrow>
     (\<exists>its. map_of g y = Some its \<and> q \<in> set its)
     \<or> (\<exists>k items. k \<noteq> y \<and> map_of g k = Some items \<and> q \<in> set items)"
  unfolding in_grouped_entries by metis

lemma in_grouped_entries_push:
  "q \<in> grouped_entries (push_group g y p) \<longleftrightarrow> q = p \<or> q \<in> grouped_entries g"
proof (cases "map_of g y")
  case None
  then show ?thesis
    by (simp add: push_group_def in_grouped_entries_obj_set in_grouped_entries_split [of q g y])
next
  case (Some its)
  then show ?thesis
    by (simp add: push_group_def in_grouped_entries_obj_set in_grouped_entries_split [of q g y])
qed


lemma group_loop_entries:
  "group_loop ps g = Inr g' \<Longrightarrow>
   q \<in> grouped_entries g' \<longleftrightarrow> q \<in> grouped_entries g \<or> (q \<in> set ps \<and> shown q)"
proof (induction ps arbitrary: g)
  case Nil
  then show ?case by simp
next
  case (Cons p ps)
  from Cons.prems obtain vis where vis: "get_prop p ''visible'' = Inr vis"
    by (cases "get_prop p ''visible''") simp_all
  show ?case
  proof (cases "vis = Some (JBool False)")
    case True
    with Cons.prems vis have "group_loop ps g = Inr g'" by simp
    from Cons.IH [OF this] show ?thesis
      using True vis by (auto simp: shown_def)
  next
    case False
    with Cons.prems vis obtain year where y: "year_of p = Inr year"
      by (cases "year_of p") simp_all
    with Cons.prems vis False have "group_loop ps (push_group g year p) = Inr g'" by simp
    from Cons.IH [OF this] show ?thesis
      using False vis by (auto simp: shown_def in_grouped_entries_push)
  qed
qed

lemma group_loop_years:
  "group_loop ps g = Inr g' \<Longrightarrow>
   (\<And>k items q. map_of g k = Some items \<Longrightarrow> q \<in> set items \<Longrightarrow> year_of q = Inr k) \<Longrightarrow>
   map_of g' k = Some items \<Longrightarrow> q \<in> set items \<Longrightarrow> year_of q = Inr k"
proof (induction ps arbitrary: g)
  case Nil
  then show ?case by simp
next
  case (Cons p ps)
  from Cons.prems(1) obtain vis where vis: "get_prop p ''visible'' = Inr vis"
    by (cases "get_prop p ''visible''") simp_all
  show ?case
  proof (cases "vis = Some (JBool False)")
    case True
    with Cons.prems(1) vis have "group_loop ps g = Inr g'" by simp
    from Cons.IH [OF this Cons.prems(2) Cons.prems(3) Cons.prems(4)] show ?thesis by simp
  next
    case False
    with Cons.prems(1) vis obtain year where y: "year_of p = Inr year"
      by (cases "year_of p") simp_all
    with Cons.prems(1) vis False have gl: "group_loop ps (push_group g year p) = Inr g'" by simp
    have inv: "\<And>k items q. map_of (push_group g year p) k = Some items \<Longrightarrow> q \<in> set items
        \<Longrightarrow> year_of q = Inr k"
    proof -
      fix k items q
      assume m: "map_of (push_group g year p) k = Some items" and q: "q \<in> set items"
      show "year_of q = Inr k"
      proof (cases "k = year")
        case True
        show ?thesis
        proof (cases "map_of g year")
          case None
          with m True have "items = [p]" by (simp add: push_group_def map_of_obj_set)
          with q y True show ?thesis by simp
        next
          case (Some its)
          with m True have "items = its @ [p]" by (simp add: push_group_def map_of_obj_set)
          with q have "q \<in> set its \<or> q = p" by auto
          then show ?thesis
            using Cons.prems(2) [OF Some] y True by auto
        qed
      next
        case False
        with m have "map_of g k = Some items"
          by (cases "map_of g year") (simp_all add: push_group_def map_of_obj_set)
        from Cons.prems(2) [OF this q] show ?thesis .
      qed
    qed
    from Cons.IH [OF gl inv Cons.prems(3) Cons.prems(4)] show ?thesis by simp
  qed
qed

lemma binary_insert_empty: "binary_insert cmp pivot [] = Inr [pivot]"
  by (simp add: binary_insert.simps)

lemma binary_insert_mset:
  "binary_insert cmp x ys = Inr zs \<Longrightarrow> mset zs = add_mset x (mset ys)"
proof (induction "length ys" arbitrary: ys zs rule: less_induct)
  case less
  show ?case
  proof (cases "ys = []")
    case True
    with less.prems show ?thesis by (simp add: binary_insert.simps)
  next
    case False
    let ?m = "length ys div 2"
    have m: "?m < length ys" using False by simp
    obtain r where r: "cmp x (ys ! ?m) = Inr r"
      using less.prems False by (subst (asm) binary_insert.simps) (auto split: sum.splits)
    have ys: "mset ys = mset (take ?m ys) + mset (drop ?m ys)"
      by (metis append_take_drop_id mset_append)
    have ys': "mset ys = mset (take (Suc ?m) ys) + mset (drop (Suc ?m) ys)"
      by (metis append_take_drop_id mset_append)
    show ?thesis
    proof (cases "is_negative r")
      case True
      then obtain ws where ws: "binary_insert cmp x (take ?m ys) = Inr ws" "zs = ws @ drop ?m ys"
        using less.prems False r by (subst (asm) binary_insert.simps) (auto split: sum.splits)
      have "length (take ?m ys) < length ys" using m by simp
      from less.hyps [OF this ws(1)] show ?thesis using ws(2) ys by simp
    next
      case neg: False
      then obtain ws where ws: "binary_insert cmp x (drop (Suc ?m) ys) = Inr ws"
          "zs = take (Suc ?m) ys @ ws"
        using less.prems False r by (subst (asm) binary_insert.simps) (auto split: sum.splits)
      have "length (drop (Suc ?m) ys) < length ys" using m by simp
      from less.hyps [OF this ws(1)] show ?thesis using ws(2) ys' by simp
    qed
  qed
qed

lemma sort_loop_mset:
  "sort_loop cmp placed xs = Inr zs \<Longrightarrow> mset zs = mset placed + mset xs"
proof (induction xs arbitrary: placed)
  case Nil
  then show ?case by simp
next
  case (Cons x xs)
  then show ?case
    by (auto split: sum.splits dest!: binary_insert_mset)
qed

lemma run_loop_append:
  "run_loop cmp d previous xs = Inr (run, rest) \<Longrightarrow> xs = run @ rest"
proof (induction xs arbitrary: previous run)
  case Nil
  then show ?case by simp
next
  case (Cons x xs)
  then show ?case
    by (fastforce split: sum.splits if_splits prod.splits)
qed

lemma count_and_make_run_mset:
  assumes "count_and_make_run cmp xs = Inr (run, rest)"
  shows "mset xs = mset run + mset rest"
proof (cases xs)
  case Nil
  with assms show ?thesis by simp
next
  case (Cons first tail)
  show ?thesis
  proof (cases tail)
    case Nil
    with Cons assms show ?thesis by auto
  next
    case (Cons second more)
    with \<open>xs = first # tail\<close> assms obtain r run' where
      r: "run_loop cmp (is_negative r) second more = Inr (run', rest)"
        "run = (if is_negative r then rev (first # second # run') else first # second # run')"
      by (auto split: sum.splits prod.splits)
    from run_loop_append [OF r(1)] have "more = run' @ rest" .
    with r(2) Cons \<open>xs = first # tail\<close> show ?thesis by auto
  qed
qed

lemma array_sort_mset: "array_sort cmp xs = Inr zs \<Longrightarrow> mset zs = mset xs"
  unfolding array_sort_def
  by (auto split: sum.splits prod.splits dest!: sort_loop_mset count_and_make_run_mset)

lemma binary_insert_total:
  assumes "\<And>a b. \<exists>r. cmp a b = Inr r"
  shows "\<exists>zs. binary_insert cmp x ys = Inr zs"
proof (induction "length ys" arbitrary: ys rule: less_induct)
  case less
  show ?case
  proof (cases "ys = []")
    case True
    then show ?thesis by (simp add: binary_insert.simps)
  next
    case False
    let ?m = "length ys div 2"
    have m: "?m < length ys" using False by simp
    from assms obtain r where r: "cmp x (ys ! ?m) = Inr r" by blast
    have "length (take ?m ys) < length ys" using m by simp
    from less.hyps [OF this] obtain ws where ws: "binary_insert cmp x (take ?m ys) = Inr ws"
      by blast
    have "length (drop (Suc ?m) ys) < length ys" using m by simp
    from less.hyps [OF this] obtain vs where vs: "binary_insert cmp x (drop (Suc ?m) ys) = Inr vs"
      by blast
    show ?thesis
      by (subst binary_insert.simps) (simp add: False r ws vs)
  qed
qed

lemma sort_loop_total:
  "(\<And>a b. \<exists>r. cmp a b = Inr r) \<Longrightarrow> \<exists>zs. sort_loop cmp placed xs = Inr zs"
proof (induction xs arbitrary: placed)
  case Nil
  then show ?case by simp
next
  case (Cons x xs)
  from binary_insert_total [of cmp x placed] Cons.prems
  obtain p' where "binary_insert cmp x placed = Inr p'" by blast
  moreover from Cons.IH [of p'] Cons.prems obtain zs where "sort_loop cmp p' xs = Inr zs" by blast
  ultimately show ?case by simp
qed

lemma run_loop_total:
  "(\<And>a b. \<exists>r. cmp a b = Inr r) \<Longrightarrow> \<exists>p. run_loop cmp d previous xs = Inr p"
proof (induction xs arbitrary: previous)
  case Nil
  then show ?case by simp
next
  case (Cons x xs)
  from Cons.prems obtain r where "cmp x previous = Inr r" by blast
  moreover from Cons.IH [of x] Cons.prems obtain p where "run_loop cmp d x xs = Inr p" by blast
  ultimately show ?case by (cases p) simp
qed

lemma count_and_make_run_total:
  assumes "\<And>a b. \<exists>r. cmp a b = Inr r"
  shows "\<exists>p. count_and_make_run cmp xs = Inr p"
proof (cases xs)
  case Nil
  then show ?thesis by simp
next
  case (Cons first tail)
  show ?thesis
  proof (cases tail)
    case Nil
    with Cons show ?thesis by simp
  next
    case (Cons second more)
    from assms obtain r where r: "cmp second first = Inr r" by blast
    from run_loop_total [of cmp "is_negative r" second more] assms
    obtain p where "run_loop cmp (is_negative r) second more = Inr p" by blast
    with r Cons \<open>xs = first # tail\<close> show ?thesis by (cases p) simp
  qed
qed

lemma array_sort_total:
  assumes "\<And>a b. \<exists>r. cmp a b = Inr r"
  shows "\<exists>zs. array_sort cmp xs = Inr zs"
proof -
  from count_and_make_run_total [of cmp xs] assms
  obtain run rest where "count_and_make_run cmp xs = Inr (run, rest)" by force
  moreover from sort_loop_total [of cmp run rest] assms
  obtain zs where "sort_loop cmp run rest = Inr zs" by blast
  ultimately show ?thesis by (simp add: array_sort_def)
qed

lemma group_loop_total:
  "(\<And>p. p \<in> set ps \<Longrightarrow> \<exists>y. year_of p = Inr y) \<Longrightarrow> \<exists>g'. group_loop ps g = Inr g'"
proof (induction ps arbitrary: g)
  case Nil
  then show ?case by simp
next
  case (Cons p ps)
  from Cons.prems [of p] obtain y where y: "year_of p = Inr y" by auto
  then obtain vis where vis: "get_prop p ''visible'' = Inr vis"
    by (cases p) (simp_all add: year_of_def)
  have "\<exists>g'. group_loop ps g = Inr g'" "\<exists>g'. group_loop ps (push_group g y p) = Inr g'"
    using Cons.IH Cons.prems by simp_all
  then show ?case
    using y vis by simp
qed

lemma presentationsByYear_parts:
  assumes "presentationsByYear ps = Inr groups"
  obtains grouped years where
    "group_loop ps [] = Inr grouped"
    "set years = fst ` set grouped"
    "groups = map (\<lambda>year. (year, case map_of grouped year of
                                     Some items \<Rightarrow> items | None \<Rightarrow> [])) years"
proof -
  from assms obtain grouped where g: "group_loop ps [] = Inr grouped"
    by (cases "group_loop ps []") (simp_all add: presentationsByYear_def)
  with assms obtain years where
    y: "array_sort (\<lambda>a b. Inr (year_desc a b)) (map fst grouped) = Inr years"
    by (cases "array_sort (\<lambda>a b. Inr (year_desc a b)) (map fst grouped)")
       (simp_all add: presentationsByYear_def)
  from array_sort_mset [OF y] have "set years = set (map fst grouped)"
    by (rule mset_eq_setD)
  then have "set years = fst ` set grouped" by simp
  moreover from assms g y have "groups = map (\<lambda>year. (year, case map_of grouped year of
                                     Some items \<Rightarrow> items | None \<Rightarrow> [])) years"
    by (simp add: presentationsByYear_def)
  ultimately show ?thesis using g that by blast
qed

text \<open>The grouping returns whenever every entry has a year (a string date, or none).\<close>

lemma presentationsByYear_total:
  assumes "\<And>p. p \<in> set ps \<Longrightarrow> \<exists>y. year_of p = Inr y"
  shows "\<exists>groups. presentationsByYear ps = Inr groups"
proof -
  from group_loop_total [of ps "[]"] assms obtain g where g: "group_loop ps [] = Inr g" by blast
  have "\<And>a b. \<exists>r. (\<lambda>a b. Inr (year_desc a b)) a b = (Inr r :: js_error + int option)" by simp
  from array_sort_total [of "\<lambda>a b. Inr (year_desc a b)" "map fst g", OF this]
  obtain ys where "array_sort (\<lambda>a b. Inr (year_desc a b)) (map fst g) = Inr ys"
    by blast
  with g show ?thesis by (simp add: presentationsByYear_def)
qed

text \<open>
  C3: three entries, none hidden, with the dates \<^verbatim>\<open>September 2025\<close>, \<^verbatim>\<open>2024\<close> and a date
  with no four digits (or no date): the groups are \<^verbatim>\<open>2025\<close>, \<^verbatim>\<open>2024\<close> and \<^verbatim>\<open>Other\<close>,
  in this order, each with its entry. The keys reach the sort as
  \<^verbatim>\<open>2024, 2025, Other\<close> (array indices first, ascending); the comparator puts \<^verbatim>\<open>2025\<close>
  before \<^verbatim>\<open>2024\<close> and returns \<^verbatim>\<open>NaN\<close> for \<^verbatim>\<open>Other\<close>, which stays last.
\<close>

theorem presentations_example:
  assumes "map_of p1 ''date'' = Some (JStr ''September 2025'')"
    and "map_of p2 ''date'' = Some (JStr ''2024'')"
    and "\<not> truthy (map_of p3 ''date'')
         \<or> (\<exists>s. map_of p3 ''date'' = Some (JStr s) \<and> match_4digits s = None)"
    and "map_of p1 ''visible'' \<noteq> Some (JBool False)"
    and "map_of p2 ''visible'' \<noteq> Some (JBool False)"
    and "map_of p3 ''visible'' \<noteq> Some (JBool False)"
  shows "presentationsByYear [JObj p1, JObj p2, JObj p3]
           = Inr [(''2025'', [JObj p1]), (''2024'', [JObj p2]), (''Other'', [JObj p3])]"
proof -
  have y1: "year_of (JObj p1) = Inr ''2025''"
    using assms(1) by (simp add: year_of_def is_digit_def)
  have y2: "year_of (JObj p2) = Inr ''2024''"
    using assms(2) by (simp add: year_of_def is_digit_def)
  have y3: "year_of (JObj p3) = Inr ''Other''"
    using assms(3) by (auto simp: year_of_def)
  have i1: "is_array_index ''2025''" "is_array_index ''2024''" "\<not> is_array_index ''Other''"
    by (simp_all add: is_array_index_def is_digit_def digits_val_def digit_val_def)
  have d: "digits_val ''2024'' < digits_val ''2025''"
    by (simp add: digits_val_def digit_val_def)
  have g: "group_loop [JObj p1, JObj p2, JObj p3] []
      = Inr [(''2024'', [JObj p2]), (''2025'', [JObj p1]), (''Other'', [JObj p3])]"
    using assms(4-6) y1 y2 y3 i1 d by (simp add: push_group_def obj_set_def)
  have s: "array_sort (\<lambda>a b. Inr (year_desc a b)) [''2024'', ''2025'', ''Other'']
      = Inr [''2025'', ''2024'', ''Other'']"
    by code_simp
  show ?thesis
    unfolding presentationsByYear_def g by (simp add: s)
qed

theorem presentations_example_witness:
  "presentationsByYear
     [JObj [(''title'', JStr ''A''), (''date'', JStr ''September 2025'')],
      JObj [(''date'', JStr ''2024''), (''visible'', JBool True)],
      JObj [(''title'', JStr ''C''), (''date'', JStr ''to be announced'')]]
   = Inr [(''2025'', [JObj [(''title'', JStr ''A''), (''date'', JStr ''September 2025'')]]),
          (''2024'', [JObj [(''date'', JStr ''2024''), (''visible'', JBool True)]]),
          (''Other'', [JObj [(''title'', JStr ''C''), (''date'', JStr ''to be announced'')]])]"
  using presentations_example
    [of "[(''title'', JStr ''A''), (''date'', JStr ''September 2025'')]"
        "[(''date'', JStr ''2024''), (''visible'', JBool True)]"
        "[(''title'', JStr ''C''), (''date'', JStr ''to be announced'')]"]
  by (simp add: is_digit_def)

section \<open>Decimal numerals and \<^verbatim>\<open>parseInt\<close>\<close>

lemma digits_val_snoc: "digits_val (s @ [c]) = 10 * digits_val s + digit_val c"
  by (simp add: digits_val_def)

lemma digit_char:
  assumes "0 \<le> d" "d \<le> (9::int)"
  shows "is_digit (char_of (48 + d)) \<and> digit_val (char_of (48 + d)) = d"
proof -
  have "(of_char (char_of (48 + d)) :: int) = (48 + d) mod 256"
    by simp
  also have "\<dots> = 48 + d" using assms by simp
  finally show ?thesis
    using assms by (simp add: is_digit_def digit_val_def)
qed

lemma dec_nat_digits:
  "0 \<le> n \<Longrightarrow> dec_nat n \<noteq> [] \<and> list_all is_digit (dec_nat n) \<and> digits_val (dec_nat n) = n"
proof (induction n rule: dec_nat.induct)
  case (1 n)
  show ?case
  proof (cases "n < 10")
    case True
    with "1.prems" digit_char [of n] show ?thesis
      by (simp add: dec_nat.simps [of n] digits_val_def)
  next
    case False
    then have ih: "dec_nat (n div 10) \<noteq> []" "list_all is_digit (dec_nat (n div 10))"
      "digits_val (dec_nat (n div 10)) = n div 10"
      using "1.IH" "1.prems" by simp_all
    have m: "0 \<le> n mod 10" "n mod 10 \<le> 9" by simp_all
    from digit_char [OF m] ih False show ?thesis
      by (simp add: dec_nat.simps [of n] digits_val_snoc)
  qed
qed

lemma dec_nat_head: "0 < n \<Longrightarrow> hd (dec_nat n) \<noteq> CHR ''0''"
proof (induction n rule: dec_nat.induct)
  case (1 n)
  show ?case
  proof (cases "n < 10")
    case True
    have "digit_val (char_of (48 + n)) = n"
      using digit_char [of n] True "1.prems" by simp
    moreover have "digit_val CHR ''0'' = 0"
      by (simp add: digit_val_def)
    ultimately have "char_of (48 + n) \<noteq> CHR ''0''"
      using "1.prems" by auto
    with True show ?thesis
      by (simp add: dec_nat.simps [of n])
  next
    case False
    then have "hd (dec_nat (n div 10)) \<noteq> CHR ''0''" "dec_nat (n div 10) \<noteq> []"
      using "1.IH" "1.prems" dec_nat_digits [of "n div 10"] by simp_all
    with False show ?thesis
      by (simp add: dec_nat.simps [of n])
  qed
qed

lemma takeWhile_all: "list_all P s \<Longrightarrow> takeWhile P s = s"
  by (simp add: list_all_iff)

lemma parse_digits_digits:
  assumes "s \<noteq> []" "list_all is_digit s"
  shows "parse_digits s = Some (digits_val s)"
proof -
  have nx: "\<not> is_digit CHR ''x''" "\<not> is_digit CHR ''X''"
    by (simp_all add: is_digit_def)
  have tw: "takeWhile is_digit s = s"
    using assms(2) by (rule takeWhile_all)
  show ?thesis
  proof (cases s)
    case Nil
    with assms show ?thesis by simp
  next
    case (Cons a t)
    show ?thesis
    proof (cases t)
      case Nil
      with Cons tw assms show ?thesis
        by (simp add: parse_digits_def)
    next
      case (Cons b rest)
      with \<open>s = a # t\<close> assms(2) nx have "b \<noteq> CHR ''x''" "b \<noteq> CHR ''X''"
        by auto
      with Cons \<open>s = a # t\<close> tw show ?thesis
        by (simp add: parse_digits_def)
    qed
  qed
qed

lemma parseInt_digits:
  assumes "s \<noteq> []" "list_all is_digit s"
  shows "parseInt s = Some (digits_val s)"
proof -
  obtain c t where s: "s = c # t" using assms(1) by (cases s) auto
  with assms(2) have c: "is_digit c" by simp
  then have "\<not> is_space c" "c \<noteq> CHR ''-''" "c \<noteq> CHR ''+''"
    by (auto simp: is_digit_def is_space_def)
  then show ?thesis
    using parse_digits_digits [OF assms] by (simp add: parseInt_def s)
qed

lemma parseInt_dec: "parseInt (dec n) = Some n"
proof (cases "n < 0")
  case True
  then have d: "dec_nat (- n) \<noteq> []" "list_all is_digit (dec_nat (- n))"
    "digits_val (dec_nat (- n)) = - n"
    using dec_nat_digits [of "- n"] by simp_all
  have "\<not> is_space CHR ''-''" by (simp add: is_space_def)
  then show ?thesis
    using True parse_digits_digits [OF d(1,2)] d(3) by (simp add: parseInt_def dec_def)
next
  case False
  then have d: "dec_nat n \<noteq> []" "list_all is_digit (dec_nat n)" "digits_val (dec_nat n) = n"
    using dec_nat_digits [of n] by simp_all
  then show ?thesis
    using False parseInt_digits [OF d(1,2)] by (simp add: dec_def)
qed

lemma year_number_missing:
  "\<not> truthy (map_of kvs ''year'') \<Longrightarrow> year_number (JObj kvs) = Inr (Some 0)"
  using parseInt_dec [of 0] by (simp add: year_number_def as_number_def in_range_def)

lemma year_number_num:
  "map_of kvs ''year'' = Some (JNum n) \<Longrightarrow> in_range n \<Longrightarrow> year_number (JObj kvs) = Inr (Some n)"
  using parseInt_dec [of n] parseInt_dec [of 0]
  by (simp add: year_number_def as_number_def in_range_def)

lemma year_number_digits:
  "map_of kvs ''year'' = Some (JStr s) \<Longrightarrow> s \<noteq> [] \<Longrightarrow> list_all is_digit s
   \<Longrightarrow> in_range (digits_val s) \<Longrightarrow> year_number (JObj kvs) = Inr (Some (digits_val s))"
  using parseInt_digits [of s] by (simp add: year_number_def as_number_def)

lemma year_number_nan:
  "map_of kvs ''year'' = Some (JStr s) \<Longrightarrow> s \<noteq> [] \<Longrightarrow> parseInt s = None
   \<Longrightarrow> year_number (JObj kvs) = Inr None"
  by (simp add: year_number_def as_number_def)

section \<open>Properties of the publications sort\<close>



lemma sortByYear_numeric:
  "year_number a = Inr (Some na) \<Longrightarrow> year_number b = Inr (Some nb)
   \<Longrightarrow> sortByYear a b = Inr (Some (year_value b - year_value a))"
  by (simp add: sortByYear_def year_value_def)

lemma binary_insert_desc:
  assumes "\<And>y. y \<in> set ys \<Longrightarrow> cmp x y = Inr (Some (f y - f x))"
    and "sorted_wrt (\<lambda>a b. f b \<le> f a) ys"
  shows "\<exists>zs. binary_insert cmp x ys = Inr zs
      \<and> sorted_wrt (\<lambda>a b. f b \<le> (f a :: int)) zs
      \<and> (\<forall>c. filter (\<lambda>y. f y = c) zs = filter (\<lambda>y. f y = c) ys @ (if f x = c then [x] else []))"
  using assms
proof (induction "length ys" arbitrary: ys rule: less_induct)
  case less
  show ?case
  proof (cases "ys = []")
    case True
    then show ?thesis by (simp add: binary_insert.simps)
  next
    case False
    let ?m = "length ys div 2"
    let ?y = "ys ! ?m"
    have m: "?m < length ys" using False by simp
    have cy: "cmp x ?y = Inr (Some (f ?y - f x))" using less.prems(1) m by simp
    have split1: "ys = take ?m ys @ drop ?m ys" by simp
    have split2: "ys = take (Suc ?m) ys @ drop (Suc ?m) ys" by simp
    have s1: "sorted_wrt (\<lambda>a b. f b \<le> f a) (take ?m ys)"
      "sorted_wrt (\<lambda>a b. f b \<le> f a) (drop ?m ys)"
      "\<forall>a \<in> set (take ?m ys). \<forall>b \<in> set (drop ?m ys). f b \<le> f a"
      using less.prems(2) by (subst (asm) split1, simp only: sorted_wrt_append, simp)+
    have s2: "sorted_wrt (\<lambda>a b. f b \<le> f a) (take (Suc ?m) ys)"
      "sorted_wrt (\<lambda>a b. f b \<le> f a) (drop (Suc ?m) ys)"
      "\<forall>a \<in> set (take (Suc ?m) ys). \<forall>b \<in> set (drop (Suc ?m) ys). f b \<le> f a"
      using less.prems(2) by (subst (asm) split2, simp only: sorted_wrt_append, simp)+
    have dm: "drop ?m ys = ?y # drop (Suc ?m) ys" using m by (simp add: Cons_nth_drop_Suc)
    have tm: "take (Suc ?m) ys = take ?m ys @ [?y]" using m by (simp add: take_Suc_conv_app_nth)
    have below: "\<forall>b \<in> set (drop ?m ys). f b \<le> f ?y"
      using s1(2) dm by auto
    have above: "\<forall>a \<in> set (take (Suc ?m) ys). f ?y \<le> f a"
      using s1(3) dm tm by auto
    show ?thesis
    proof (cases "f ?y < f x")
      case True
      have len: "length (take ?m ys) < length ys" using m by simp
      have "\<And>y. y \<in> set (take ?m ys) \<Longrightarrow> cmp x y = Inr (Some (f y - f x))"
        using less.prems(1) by (meson in_set_takeD)
      from less.hyps [OF len this s1(1)] obtain ws where
        ws: "binary_insert cmp x (take ?m ys) = Inr ws" "sorted_wrt (\<lambda>a b. f b \<le> f a) ws"
          "\<forall>c. filter (\<lambda>y. f y = c) ws
             = filter (\<lambda>y. f y = c) (take ?m ys) @ (if f x = c then [x] else [])"
        by blast
      have set_ws: "set ws = insert x (set (take ?m ys))"
        using binary_insert_mset [OF ws(1)]
        by (metis mset_eq_setD set_mset_add_mset_insert set_mset_mset)
      have res: "binary_insert cmp x ys = Inr (ws @ drop ?m ys)"
        by (subst binary_insert.simps) (simp add: False cy True ws(1))
      have lt: "\<forall>b \<in> set (drop ?m ys). f b < f x" using below True by auto
      have srt: "sorted_wrt (\<lambda>a b. f b \<le> f a) (ws @ drop ?m ys)"
        unfolding sorted_wrt_append using ws(2) s1(2) s1(3) set_ws lt by auto
      have nf: "filter (\<lambda>y. f y = f x) (drop ?m ys) = []"
        using lt by (auto simp: filter_empty_conv)
      have "\<forall>c. filter (\<lambda>y. f y = c) (ws @ drop ?m ys)
          = filter (\<lambda>y. f y = c) ys @ (if f x = c then [x] else [])"
      proof
        fix c
        have "filter (\<lambda>y. f y = c) ys
            = filter (\<lambda>y. f y = c) (take ?m ys) @ filter (\<lambda>y. f y = c) (drop ?m ys)"
          by (metis append_take_drop_id filter_append)
        then show "filter (\<lambda>y. f y = c) (ws @ drop ?m ys)
            = filter (\<lambda>y. f y = c) ys @ (if f x = c then [x] else [])"
          using ws(3) nf by auto
      qed
      with res srt show ?thesis by blast
    next
      case nlt: False
      have len: "length (drop (Suc ?m) ys) < length ys" using m by simp
      have "\<And>y. y \<in> set (drop (Suc ?m) ys) \<Longrightarrow> cmp x y = Inr (Some (f y - f x))"
        using less.prems(1) by (meson in_set_dropD)
      from less.hyps [OF len this s2(2)] obtain ws where
        ws: "binary_insert cmp x (drop (Suc ?m) ys) = Inr ws"
          "sorted_wrt (\<lambda>a b. f b \<le> f a) ws"
          "\<forall>c. filter (\<lambda>y. f y = c) ws
             = filter (\<lambda>y. f y = c) (drop (Suc ?m) ys) @ (if f x = c then [x] else [])"
        by blast
      have set_ws: "set ws = insert x (set (drop (Suc ?m) ys))"
        using binary_insert_mset [OF ws(1)]
        by (metis mset_eq_setD set_mset_add_mset_insert set_mset_mset)
      have res: "binary_insert cmp x ys = Inr (take (Suc ?m) ys @ ws)"
        by (subst binary_insert.simps) (simp add: False cy nlt ws(1))
      have ge: "\<forall>a \<in> set (take (Suc ?m) ys). f x \<le> f a" using above nlt by auto
      have srt: "sorted_wrt (\<lambda>a b. f b \<le> f a) (take (Suc ?m) ys @ ws)"
        unfolding sorted_wrt_append using ws(2) s2(1) s2(3) set_ws ge by auto
      have "\<forall>c. filter (\<lambda>y. f y = c) (take (Suc ?m) ys @ ws)
          = filter (\<lambda>y. f y = c) ys @ (if f x = c then [x] else [])"
      proof
        fix c
        have "filter (\<lambda>y. f y = c) ys
            = filter (\<lambda>y. f y = c) (take (Suc ?m) ys) @ filter (\<lambda>y. f y = c) (drop (Suc ?m) ys)"
          by (metis append_take_drop_id filter_append)
        then show "filter (\<lambda>y. f y = c) (take (Suc ?m) ys @ ws)
            = filter (\<lambda>y. f y = c) ys @ (if f x = c then [x] else [])"
          using ws(3) by auto
      qed
      with res srt show ?thesis by blast
    qed
  qed
qed

lemma sort_loop_desc:
  assumes "\<And>x y. x \<in> set xs \<Longrightarrow> y \<in> set placed \<union> set xs \<Longrightarrow> cmp x y = Inr (Some (f y - f x))"
    and "sorted_wrt (\<lambda>a b. f b \<le> f a) placed"
  shows "\<exists>zs. sort_loop cmp placed xs = Inr zs
      \<and> sorted_wrt (\<lambda>a b. f b \<le> (f a :: int)) zs
      \<and> (\<forall>c. filter (\<lambda>y. f y = c) zs = filter (\<lambda>y. f y = c) placed @ filter (\<lambda>y. f y = c) xs)"
  using assms
proof (induction xs arbitrary: placed)
  case Nil
  then show ?case by simp
next
  case (Cons x xs)
  have "\<And>y. y \<in> set placed \<Longrightarrow> cmp x y = Inr (Some (f y - f x))"
    using Cons.prems(1) by simp
  from binary_insert_desc [of placed cmp x f, OF this Cons.prems(2)]
  obtain p' where p': "binary_insert cmp x placed = Inr p'" "sorted_wrt (\<lambda>a b. f b \<le> f a) p'"
    "\<forall>c. filter (\<lambda>y. f y = c) p' = filter (\<lambda>y. f y = c) placed @ (if f x = c then [x] else [])"
    by blast
  have set_p': "set p' = insert x (set placed)"
    using binary_insert_mset [OF p'(1)] by (metis mset_eq_setD set_mset_add_mset_insert set_mset_mset)
  have "\<And>a y. a \<in> set xs \<Longrightarrow> y \<in> set p' \<union> set xs \<Longrightarrow> cmp a y = Inr (Some (f y - f a))"
    using Cons.prems(1) set_p' by auto
  from Cons.IH [of p', OF this p'(2)]
  obtain zs where zs: "sort_loop cmp p' xs = Inr zs" "sorted_wrt (\<lambda>a b. f b \<le> f a) zs"
    "\<forall>c. filter (\<lambda>y. f y = c) zs = filter (\<lambda>y. f y = c) p' @ filter (\<lambda>y. f y = c) xs"
    by blast
  have "sort_loop cmp placed (x # xs) = Inr zs" using p'(1) zs(1) by simp
  moreover have "\<forall>c. filter (\<lambda>y. f y = c) zs
      = filter (\<lambda>y. f y = c) placed @ filter (\<lambda>y. f y = c) (x # xs)"
    using zs(3) p'(3) by simp
  ultimately show ?case using zs(2) by blast
qed

lemma run_loop_desc:
  assumes "\<And>x y. x \<in> set (previous # xs) \<Longrightarrow> y \<in> set (previous # xs)
      \<Longrightarrow> cmp x y = Inr (Some (f y - f x))"
  shows "\<exists>run rest. run_loop cmp d previous xs = Inr (run, rest) \<and> xs = run @ rest
      \<and> (if d then sorted_wrt (\<lambda>a b. f a < (f b :: int)) (previous # run)
          else sorted_wrt (\<lambda>a b. f b \<le> f a) (previous # run))"
  using assms
proof (induction xs arbitrary: previous)
  case Nil
  then show ?case by simp
next
  case (Cons x xs)
  have c: "cmp x previous = Inr (Some (f previous - f x))" using Cons.prems by simp
  show ?case
  proof (cases "(f previous < f x) = d")
    case False
    then show ?thesis using c by auto
  next
    case True
    have "\<And>a b. a \<in> set (x # xs) \<Longrightarrow> b \<in> set (x # xs) \<Longrightarrow> cmp a b = Inr (Some (f b - f a))"
      using Cons.prems by simp
    from Cons.IH [OF this] obtain run rest where
      r: "run_loop cmp d x xs = Inr (run, rest)" "xs = run @ rest"
        "if d then sorted_wrt (\<lambda>a b. f a < f b) (x # run)
         else sorted_wrt (\<lambda>a b. f b \<le> f a) (x # run)"
      by blast
    have "run_loop cmp d previous (x # xs) = Inr (x # run, rest)"
      using c True r(1) by auto
    moreover have "x # xs = (x # run) @ rest" using r(2) by simp
    moreover have "if d then sorted_wrt (\<lambda>a b. f a < f b) (previous # x # run)
         else sorted_wrt (\<lambda>a b. f b \<le> f a) (previous # x # run)"
      using r(3) True by (cases d) fastforce+
    ultimately show ?thesis by blast
  qed
qed

lemma filter_rev_strict:
  "sorted_wrt (\<lambda>a b. f a < (f b :: int)) p
   \<Longrightarrow> filter (\<lambda>y. f y = c) (rev p) = filter (\<lambda>y. f y = c) p"
proof (induction p)
  case Nil
  then show ?case by simp
next
  case (Cons a p)
  then have "f a = c \<Longrightarrow> filter (\<lambda>y. f y = c) p = []"
    by (auto simp: filter_empty_conv)
  with Cons show ?case by auto
qed

lemma count_and_make_run_desc:
  assumes "\<And>x y. x \<in> set xs \<Longrightarrow> y \<in> set xs \<Longrightarrow> cmp x y = Inr (Some (f y - f x))"
  shows "\<exists>run rest. count_and_make_run cmp xs = Inr (run, rest)
      \<and> sorted_wrt (\<lambda>a b. f b \<le> (f a :: int)) run
      \<and> (\<forall>c. filter (\<lambda>y. f y = c) run @ filter (\<lambda>y. f y = c) rest = filter (\<lambda>y. f y = c) xs)"
proof (cases xs)
  case Nil
  then show ?thesis by simp
next
  case (Cons first tail)
  show ?thesis
  proof (cases tail)
    case Nil
    with Cons show ?thesis by simp
  next
    case (Cons second more)
    have xs: "xs = first # second # more" using Cons \<open>xs = first # tail\<close> by simp
    let ?d = "f first < f second"
    have c: "cmp second first = Inr (Some (f first - f second))" using assms xs by simp
    have "\<And>x y. x \<in> set (second # more) \<Longrightarrow> y \<in> set (second # more)
        \<Longrightarrow> cmp x y = Inr (Some (f y - f x))"
      using assms xs by simp
    from run_loop_desc [of second more cmp f ?d, OF this] obtain run rest where
      r: "run_loop cmp ?d second more = Inr (run, rest)" "more = run @ rest"
        "if ?d then sorted_wrt (\<lambda>a b. f a < f b) (second # run)
         else sorted_wrt (\<lambda>a b. f b \<le> f a) (second # run)"
      by blast
    show ?thesis
    proof (cases ?d)
      case True
      have st: "sorted_wrt (\<lambda>a b. f a < f b) (first # second # run)"
        using r(3) True by fastforce
      have res: "count_and_make_run cmp xs = Inr (rev (first # second # run), rest)"
        using c True r(1) xs by simp
      have "sorted_wrt (\<lambda>a b. f b < f a) (rev (first # second # run))"
        using st unfolding sorted_wrt_rev .
      then have srt: "sorted_wrt (\<lambda>a b. f b \<le> f a) (rev (first # second # run))"
        by (rule sorted_wrt_mono_rel [rotated]) simp
      have "\<forall>c. filter (\<lambda>y. f y = c) (rev (first # second # run)) @ filter (\<lambda>y. f y = c) rest
          = filter (\<lambda>y. f y = c) xs"
        unfolding filter_rev_strict [OF st] xs r(2) by simp
      with res srt show ?thesis by blast
    next
      case False
      have srt: "sorted_wrt (\<lambda>a b. f b \<le> f a) (first # second # run)"
        using r(3) False by fastforce
      have res: "count_and_make_run cmp xs = Inr (first # second # run, rest)"
        using c False r(1) xs by simp
      have "\<forall>c. filter (\<lambda>y. f y = c) (first # second # run) @ filter (\<lambda>y. f y = c) rest
          = filter (\<lambda>y. f y = c) xs"
        unfolding xs r(2) by simp
      with res srt show ?thesis by blast
    qed
  qed
qed

lemma array_sort_desc:
  assumes "\<And>x y. x \<in> set xs \<Longrightarrow> y \<in> set xs \<Longrightarrow> cmp x y = Inr (Some (f y - f x))"
  shows "array_sort cmp xs = Inr (sort_key (\<lambda>x. - (f x :: int)) xs)"
proof -
  from count_and_make_run_desc [of xs cmp f, OF assms] obtain run rest where
    r: "count_and_make_run cmp xs = Inr (run, rest)" "sorted_wrt (\<lambda>a b. f b \<le> f a) run"
      "\<forall>c. filter (\<lambda>y. f y = c) run @ filter (\<lambda>y. f y = c) rest = filter (\<lambda>y. f y = c) xs"
    by blast
  have sets: "set run \<union> set rest = set xs"
    using count_and_make_run_mset [OF r(1)] by (metis mset_eq_setD set_append mset_append)
  have "\<And>x y. x \<in> set rest \<Longrightarrow> y \<in> set run \<union> set rest \<Longrightarrow> cmp x y = Inr (Some (f y - f x))"
    using assms sets by blast
  from sort_loop_desc [of rest run cmp f, OF this r(2)]
  obtain zs where zs0: "sort_loop cmp run rest = Inr zs" "sorted_wrt (\<lambda>a b. f b \<le> f a) zs"
    "\<forall>c. filter (\<lambda>y. f y = c) zs = filter (\<lambda>y. f y = c) run @ filter (\<lambda>y. f y = c) rest"
    by blast
  have zs: "array_sort cmp xs = Inr zs" "sorted_wrt (\<lambda>a b. f b \<le> f a) zs"
    "\<forall>c. filter (\<lambda>y. f y = c) zs = filter (\<lambda>y. f y = c) xs"
    using zs0 r by (simp_all add: array_sort_def)
  have m: "mset zs = mset xs" using zs(1) by (rule array_sort_mset)
  have s: "sorted (map (\<lambda>x. - f x) zs)"
    using zs(2) by (simp add: sorted_wrt_map sorted_wrt_iff_nth_less) 
  have st: "\<And>k. k \<in> set zs \<Longrightarrow> filter (\<lambda>x. - f k = - f x) zs = filter (\<lambda>x. - f k = - f x) xs"
  proof -
    fix k
    have "(\<lambda>x. - f k = - f x) = (\<lambda>y. f y = f k)" by auto
    then show "filter (\<lambda>x. - f k = - f x) zs = filter (\<lambda>x. - f k = - f x) xs"
      using zs(3) by simp
  qed
  have "sort_key (\<lambda>x. - f x) xs = zs"
    using m st s by (rule properties_for_sort_key)
  with zs(1) show ?thesis by simp
qed

lemma array_sort_by_year:
  assumes "\<forall>x \<in> set xs. \<exists>n. year_number x = Inr (Some n)"
  shows "array_sort sortByYear xs = Inr (sort_key (\<lambda>x. - year_value x) xs)"
proof (rule array_sort_desc)
  fix x y
  assume "x \<in> set xs" "y \<in> set xs"
  with assms obtain nx ny where "year_number x = Inr (Some nx)" "year_number y = Inr (Some ny)"
    by blast
  then show "sortByYear x y = Inr (Some (year_value y - year_value x))"
    by (rule sortByYear_numeric)
qed

lemma numeric_years_iff:
  "numeric_years xs \<longleftrightarrow> (\<forall>x \<in> set xs. \<exists>n. year_number x = Inr (Some n))"
proof -
  have "\<And>x. (case year_number x of Inr (Some n) \<Rightarrow> True | _ \<Rightarrow> False)
      \<longleftrightarrow> (\<exists>n. year_number x = Inr (Some n))"
    by (auto split: sum.splits option.splits)
  then show ?thesis by (simp add: numeric_years_def list_all_iff)
qed

lemma obj_set_keys: "map_of obj k = Some w \<Longrightarrow> map fst (obj_set obj k v) = map fst obj"
proof -
  assume "map_of obj k = Some w"
  then have "k \<in> fst ` set obj" by (meson domI domIff map_of_eq_None_iff)
  moreover have "map fst (map (\<lambda>(k', v'). if k' = k then (k', v) else (k', v')) obj) = map fst obj"
    by (induction obj) auto
  ultimately show ?thesis by (simp add: obj_set_def)
qed

lemma sort_category_sortable:
  assumes "sortable (map_of pubs c)"
  shows "\<exists>pubs'. sort_category pubs c = Inr pubs'
      \<and> (\<forall>k. map_of pubs' k = (if k = c then sorted_value (map_of pubs k) else map_of pubs k))
      \<and> map fst pubs' = map fst pubs"
proof (cases "\<exists>xs. map_of pubs c = Some (JArr xs)")
  case True
  then obtain xs where xs: "map_of pubs c = Some (JArr xs)" by blast
  with assms have "numeric_years xs" by (simp add: sortable_def)
  then have "array_sort sortByYear xs = Inr (sort_key (\<lambda>x. - year_value x) xs)"
    unfolding numeric_years_iff by (rule array_sort_by_year)
  then have "sort_category pubs c
      = Inr (obj_set pubs c (JArr (sort_key (\<lambda>x. - year_value x) xs)))"
    using xs by (simp add: sort_category_def)
  moreover have "\<forall>k. map_of (obj_set pubs c (JArr (sort_key (\<lambda>x. - year_value x) xs))) k
      = (if k = c then sorted_value (map_of pubs k) else map_of pubs k)"
    using xs by (simp add: map_of_obj_set sorted_value_def)
  moreover have "map fst (obj_set pubs c (JArr (sort_key (\<lambda>x. - year_value x) xs))) = map fst pubs"
    using xs by (rule obj_set_keys)
  ultimately show ?thesis by simp
next
  case False
  then have nt: "\<not> truthy (map_of pubs c)"
    using assms by (auto simp: sortable_def split: option.splits json.splits)
  have "sorted_value (map_of pubs c) = map_of pubs c"
    using False by (auto simp: sorted_value_def split: option.splits json.splits)
  with nt show ?thesis by (simp add: sort_category_def)
qed

lemma sort_publications_sortable:
  assumes "\<forall>c \<in> set categories. sortable (map_of pubs c)"
  shows "\<exists>pubs'. sort_publications pubs = Inr pubs'
      \<and> (\<forall>k. map_of pubs' k
            = (if k \<in> set categories then sorted_value (map_of pubs k) else map_of pubs k))
      \<and> map fst pubs' = map fst pubs"
proof -
  have s: "sortable (map_of pubs ''books'')" "sortable (map_of pubs ''book_chapters'')"
    "sortable (map_of pubs ''articles'')"
    using assms by (simp_all add: categories_def)
  from sort_category_sortable [OF s(1)] obtain p1 where
    p1: "sort_category pubs ''books'' = Inr p1"
      "\<forall>k. map_of p1 k = (if k = ''books'' then sorted_value (map_of pubs k) else map_of pubs k)"
      "map fst p1 = map fst pubs"
    by blast
  have "sortable (map_of p1 ''book_chapters'')" using p1(2) s(2) by simp
  from sort_category_sortable [OF this] obtain p2 where
    p2: "sort_category p1 ''book_chapters'' = Inr p2"
      "\<forall>k. map_of p2 k = (if k = ''book_chapters'' then sorted_value (map_of p1 k) else map_of p1 k)"
      "map fst p2 = map fst p1"
    by blast
  have "sortable (map_of p2 ''articles'')" using p1(2) p2(2) s(3) by simp
  from sort_category_sortable [OF this] obtain p3 where
    p3: "sort_category p2 ''articles'' = Inr p3"
      "\<forall>k. map_of p3 k = (if k = ''articles'' then sorted_value (map_of p2 k) else map_of p2 k)"
      "map fst p3 = map fst p2"
    by blast
  have "sort_publications pubs = Inr p3"
    using p1(1) p2(1) p3(1) by (simp add: sort_publications_def)
  moreover have "\<forall>k. map_of p3 k
      = (if k \<in> set categories then sorted_value (map_of pubs k) else map_of pubs k)"
    using p1(2) p2(2) p3(2) by (simp add: categories_def)
  moreover have "map fst p3 = map fst pubs" using p1(3) p2(3) p3(3) by simp
  ultimately show ?thesis by blast
qed

text \<open>
  C5, as the code has it. A category list whose entries all have a numeric year
  (\<^verbatim>\<open>parseInt\<close> of the year gives a number, of magnitude at most \<open>2^52\<close>) is sorted by the
  stable sort on the year, descending: the result is in descending order of the year and
  has the entries of the list. An entry with no year, or a falsy one, counts as year 0; a
  number counts as itself and a digit string as its value. Entries with the years 2020,
  2023 and none come out as 2023, 2020, none. When each of the categories \<^verbatim>\<open>books\<close>,
  \<^verbatim>\<open>book_chapters\<close> and \<^verbatim>\<open>articles\<close> is absent, falsy or such a list, the sort of the
  publications object returns, puts the sorted list in the place of each category list,
  and changes no other property and not the order of the properties; the localized
  document gets that object as its \<^verbatim>\<open>publications\<close>.
\<close>

theorem publications_sorted:
  "(numeric_years xs \<longrightarrow>
      array_sort sortByYear xs = Inr (sort_key (\<lambda>x. - year_value x) xs)
      \<and> by_year_desc (sort_key (\<lambda>x. - year_value x) xs)
      \<and> mset (sort_key (\<lambda>x. - year_value x) xs) = mset xs)
   \<and> (\<not> truthy (map_of kvs ''year'') \<longrightarrow>
        year_number (JObj kvs) = Inr (Some 0) \<and> year_value (JObj kvs) = 0)
   \<and> (map_of kvs ''year'' = Some (JNum n) \<longrightarrow> in_range n \<longrightarrow>
        year_number (JObj kvs) = Inr (Some n) \<and> year_value (JObj kvs) = n)
   \<and> (map_of kvs ''year'' = Some (JStr s) \<longrightarrow> s \<noteq> [] \<longrightarrow> list_all is_digit s \<longrightarrow>
        in_range (digits_val s) \<longrightarrow>
        year_number (JObj kvs) = Inr (Some (digits_val s)) \<and> year_value (JObj kvs) = digits_val s)
   \<and> (map_of a ''year'' = Some (JNum 2020) \<longrightarrow> map_of b ''year'' = Some (JNum 2023) \<longrightarrow>
        map_of c ''year'' = None \<longrightarrow>
        array_sort sortByYear [JObj a, JObj b, JObj c] = Inr [JObj b, JObj a, JObj c])
   \<and> ((\<forall>category \<in> set categories. sortable (map_of pubs category)) \<longrightarrow>
        (\<exists>pubs'. sort_publications pubs = Inr pubs'
           \<and> (\<forall>k. map_of pubs' k
                 = (if k \<in> set categories then sorted_value (map_of pubs k) else map_of pubs k))
           \<and> map fst pubs' = map fst pubs
           \<and> (map_of localized ''publications'' = Some (JObj pubs) \<longrightarrow>
                shape_publications localized
                  = Inr (obj_set localized ''publications'' (JObj pubs')))))"
proof -
  have 1: "numeric_years xs \<longrightarrow>
      array_sort sortByYear xs = Inr (sort_key (\<lambda>x. - year_value x) xs)
      \<and> by_year_desc (sort_key (\<lambda>x. - year_value x) xs)
      \<and> mset (sort_key (\<lambda>x. - year_value x) xs) = mset xs"
  proof (intro impI conjI)
    assume "numeric_years xs"
    then have h: "\<forall>x \<in> set xs. \<exists>n. year_number x = Inr (Some n)"
      by (simp add: numeric_years_iff)
    then show "array_sort sortByYear xs = Inr (sort_key (\<lambda>x. - year_value x) xs)"
      by (rule array_sort_by_year)
    have "sorted (map (\<lambda>x. - year_value x) (sort_key (\<lambda>x. - year_value x) xs))"
      by (rule sorted_sort_key)
    then show "by_year_desc (sort_key (\<lambda>x. - year_value x) xs)"
      by (simp add: by_year_desc_def sorted_wrt_map)
    show "mset (sort_key (\<lambda>x. - year_value x) xs) = mset xs"
      by simp
  qed
  have 2: "\<not> truthy (map_of kvs ''year'') \<longrightarrow>
        year_number (JObj kvs) = Inr (Some 0) \<and> year_value (JObj kvs) = 0"
    by (simp add: year_number_missing year_value_def)
  have 3: "map_of kvs ''year'' = Some (JNum n) \<longrightarrow> in_range n \<longrightarrow>
        year_number (JObj kvs) = Inr (Some n) \<and> year_value (JObj kvs) = n"
    by (simp add: year_number_num year_value_def)
  have 4: "map_of kvs ''year'' = Some (JStr s) \<longrightarrow> s \<noteq> [] \<longrightarrow> list_all is_digit s \<longrightarrow>
        in_range (digits_val s) \<longrightarrow>
        year_number (JObj kvs) = Inr (Some (digits_val s)) \<and> year_value (JObj kvs) = digits_val s"
    by (simp add: year_number_digits year_value_def)
  have 5: "map_of a ''year'' = Some (JNum 2020) \<longrightarrow> map_of b ''year'' = Some (JNum 2023) \<longrightarrow>
        map_of c ''year'' = None \<longrightarrow>
        array_sort sortByYear [JObj a, JObj b, JObj c] = Inr [JObj b, JObj a, JObj c]"
  proof (intro impI)
    assume a: "map_of a ''year'' = Some (JNum 2020)" and b: "map_of b ''year'' = Some (JNum 2023)"
      and c: "map_of c ''year'' = None"
    have ya: "year_number (JObj a) = Inr (Some 2020)"
      using a by (rule year_number_num) (simp add: in_range_def)
    have yb: "year_number (JObj b) = Inr (Some 2023)"
      using b by (rule year_number_num) (simp add: in_range_def)
    have yc: "year_number (JObj c) = Inr (Some 0)" using c by (simp add: year_number_missing)
    show "array_sort sortByYear [JObj a, JObj b, JObj c] = Inr [JObj b, JObj a, JObj c]"
      by (simp add: array_sort_def binary_insert.simps sortByYear_def ya yb yc)
  qed
  have 6: "(\<forall>category \<in> set categories. sortable (map_of pubs category)) \<longrightarrow>
        (\<exists>pubs'. sort_publications pubs = Inr pubs'
           \<and> (\<forall>k. map_of pubs' k
                 = (if k \<in> set categories then sorted_value (map_of pubs k) else map_of pubs k))
           \<and> map fst pubs' = map fst pubs
           \<and> (map_of localized ''publications'' = Some (JObj pubs) \<longrightarrow>
                shape_publications localized
                  = Inr (obj_set localized ''publications'' (JObj pubs'))))"
  proof
    assume "\<forall>category \<in> set categories. sortable (map_of pubs category)"
    from sort_publications_sortable [OF this] obtain pubs' where
      p: "sort_publications pubs = Inr pubs'"
        "\<forall>k. map_of pubs' k
           = (if k \<in> set categories then sorted_value (map_of pubs k) else map_of pubs k)"
        "map fst pubs' = map fst pubs"
      by blast
    have "map_of localized ''publications'' = Some (JObj pubs) \<longrightarrow>
        shape_publications localized = Inr (obj_set localized ''publications'' (JObj pubs'))"
      using p(1) by (simp add: shape_publications_def)
    with p show "\<exists>pubs'. sort_publications pubs = Inr pubs'
           \<and> (\<forall>k. map_of pubs' k
                 = (if k \<in> set categories then sorted_value (map_of pubs k) else map_of pubs k))
           \<and> map fst pubs' = map fst pubs
           \<and> (map_of localized ''publications'' = Some (JObj pubs) \<longrightarrow>
                shape_publications localized
                  = Inr (obj_set localized ''publications'' (JObj pubs')))"
      by blast
  qed
  from 1 2 3 4 5 6 show ?thesis by blast
qed

theorem publications_sorted_witness:
  "numeric_years
     [JObj [(''title'', JStr ''A''), (''year'', JNum 2020)],
      JObj [(''title'', JStr ''B''), (''year'', JStr ''2023'')],
      JObj [(''title'', JStr ''C'')],
      JObj [(''title'', JStr ''D''), (''year'', JNum 2023)]]
   \<and> array_sort sortByYear
       [JObj [(''title'', JStr ''A''), (''year'', JNum 2020)],
        JObj [(''title'', JStr ''B''), (''year'', JStr ''2023'')],
        JObj [(''title'', JStr ''C'')],
        JObj [(''title'', JStr ''D''), (''year'', JNum 2023)]]
     = Inr [JObj [(''title'', JStr ''B''), (''year'', JStr ''2023'')],
            JObj [(''title'', JStr ''D''), (''year'', JNum 2023)],
            JObj [(''title'', JStr ''A''), (''year'', JNum 2020)],
            JObj [(''title'', JStr ''C'')]]
   \<and> array_sort sortByYear
       [JObj [(''year'', JNum 2020)], JObj [(''year'', JNum 2023)], JObj [(''title'', JStr ''C'')]]
     = Inr [JObj [(''year'', JNum 2023)], JObj [(''year'', JNum 2020)], JObj [(''title'', JStr ''C'')]]
   \<and> sortable (map_of
         [(''books'', JArr [JObj [(''title'', JStr ''A''), (''year'', JNum 2020)],
                            JObj [(''title'', JStr ''B''), (''year'', JStr ''2023'')],
                            JObj [(''title'', JStr ''C'')],
                            JObj [(''title'', JStr ''D''), (''year'', JNum 2023)]]),
          (''note'', JStr ''x'')] ''books'')
   \<and> sortable (map_of
         [(''books'', JArr [JObj [(''title'', JStr ''A''), (''year'', JNum 2020)],
                            JObj [(''title'', JStr ''B''), (''year'', JStr ''2023'')],
                            JObj [(''title'', JStr ''C'')],
                            JObj [(''title'', JStr ''D''), (''year'', JNum 2023)]]),
          (''note'', JStr ''x'')] ''book_chapters'')
   \<and> sortable (map_of
         [(''books'', JArr [JObj [(''title'', JStr ''A''), (''year'', JNum 2020)],
                            JObj [(''title'', JStr ''B''), (''year'', JStr ''2023'')],
                            JObj [(''title'', JStr ''C'')],
                            JObj [(''title'', JStr ''D''), (''year'', JNum 2023)]]),
          (''note'', JStr ''x'')] ''articles'')
   \<and> (\<exists>pubs'. sort_publications
          [(''books'', JArr [JObj [(''title'', JStr ''A''), (''year'', JNum 2020)],
                             JObj [(''title'', JStr ''B''), (''year'', JStr ''2023'')],
                             JObj [(''title'', JStr ''C'')],
                             JObj [(''title'', JStr ''D''), (''year'', JNum 2023)]]),
           (''note'', JStr ''x'')] = Inr pubs'
        \<and> map_of pubs' ''books''
            = Some (JArr [JObj [(''title'', JStr ''B''), (''year'', JStr ''2023'')],
                          JObj [(''title'', JStr ''D''), (''year'', JNum 2023)],
                          JObj [(''title'', JStr ''A''), (''year'', JNum 2020)],
                          JObj [(''title'', JStr ''C'')]])
        \<and> map_of pubs' ''note'' = Some (JStr ''x'')
        \<and> map fst pubs' = [''books'', ''note'']
        \<and> shape_publications
            [(''publications'', JObj
               [(''books'', JArr [JObj [(''title'', JStr ''A''), (''year'', JNum 2020)],
                                  JObj [(''title'', JStr ''B''), (''year'', JStr ''2023'')],
                                  JObj [(''title'', JStr ''C'')],
                                  JObj [(''title'', JStr ''D''), (''year'', JNum 2023)]]),
                (''note'', JStr ''x'')])]
          = Inr [(''publications'', JObj pubs')])"
proof -
  let ?a = "JObj [(''title'', JStr ''A''), (''year'', JNum 2020)]"
  let ?b = "JObj [(''title'', JStr ''B''), (''year'', JStr ''2023'')]"
  let ?c = "JObj [(''title'', JStr ''C'')]"
  let ?d = "JObj [(''title'', JStr ''D''), (''year'', JNum 2023)]"
  let ?pubs = "[(''books'', JArr [?a, ?b, ?c, ?d]), (''note'', JStr ''x'')]"
  let ?doc = "[(''publications'', JObj ?pubs)]"
  have ya: "year_number ?a = Inr (Some 2020)" by (simp add: year_number_num in_range_def)
  have yb: "year_number ?b = Inr (Some 2023)"
    using year_number_digits [of "[(''title'', JStr ''B''), (''year'', JStr ''2023'')]" "''2023''"]
    by (simp add: is_digit_def digits_val_def digit_val_def in_range_def)
  have yc: "year_number ?c = Inr (Some 0)" by (simp add: year_number_missing)
  have yd: "year_number ?d = Inr (Some 2023)" by (simp add: year_number_num in_range_def)
  have v: "year_value ?a = 2020" "year_value ?b = 2023" "year_value ?c = 0" "year_value ?d = 2023"
    by (simp_all add: year_value_def ya yb yc yd)
  have h: "numeric_years [?a, ?b, ?c, ?d]"
    using ya yb yc yd by (simp add: numeric_years_def)
  have sk: "sort_key (\<lambda>x. - year_value x) [?a, ?b, ?c, ?d] = [?b, ?d, ?a, ?c]"
    using v by (simp add: insort_key.simps)
  have st: "\<forall>category \<in> set categories. sortable (map_of ?pubs category)"
    using h by (simp add: categories_def sortable_def)
  note inst = publications_sorted [of "[?a, ?b, ?c, ?d]" _ _ _ "[(''year'', JNum 2020)]"
        "[(''year'', JNum 2023)]" "[(''title'', JStr ''C'')]" ?pubs ?doc]
  have 1: "array_sort sortByYear [?a, ?b, ?c, ?d] = Inr [?b, ?d, ?a, ?c]"
    using inst [THEN conjunct1] h sk by simp
  have 2: "array_sort sortByYear
       [JObj [(''year'', JNum 2020)], JObj [(''year'', JNum 2023)], ?c]
     = Inr [JObj [(''year'', JNum 2023)], JObj [(''year'', JNum 2020)], ?c]"
    using inst [THEN conjunct2, THEN conjunct2, THEN conjunct2, THEN conjunct2, THEN conjunct1]
    by simp
  note c6 = inst [THEN conjunct2, THEN conjunct2, THEN conjunct2, THEN conjunct2, THEN conjunct2]
  from c6 st obtain pubs' where
    p: "sort_publications ?pubs = Inr pubs'"
      "\<forall>k. map_of pubs' k
         = (if k \<in> set categories then sorted_value (map_of ?pubs k) else map_of ?pubs k)"
      "map fst pubs' = map fst ?pubs"
      "map_of ?doc ''publications'' = Some (JObj ?pubs) \<longrightarrow>
         shape_publications ?doc = Inr (obj_set ?doc ''publications'' (JObj pubs'))"
    by blast
  have 3: "map_of pubs' ''books'' = Some (JArr [?b, ?d, ?a, ?c])"
    using p(2) sk by (simp add: categories_def sorted_value_def)
  have 4: "map_of pubs' ''note'' = Some (JStr ''x'')"
    using p(2) by (simp add: categories_def)
  have 5: "shape_publications ?doc = Inr [(''publications'', JObj pubs')]"
    using p(4) by (simp add: obj_set_def)
  have st3: "sortable (map_of ?pubs ''books'')" "sortable (map_of ?pubs ''book_chapters'')"
    "sortable (map_of ?pubs ''articles'')"
    using st by (simp_all add: categories_def)
  from h 1 2 st3 p(1) p(3) 3 4 5 show ?thesis by auto
qed

text \<open>
  The claim as it is written fails on a year that \<^verbatim>\<open>parseInt\<close> does not read: the
  comparator gives \<^verbatim>\<open>NaN\<close> against it, the sort takes the three entries below as one run
  that does not descend, and the list is left as it is, 2020 before 2023.
\<close>

theorem publications_unsorted_counterexample:
  "shape_publications
     [(''publications'', JObj [(''articles'',
        JArr [JObj [(''year'', JNum 2020)], JObj [(''year'', JStr ''in press'')],
              JObj [(''year'', JNum 2023)]])])]
   = Inr [(''publications'', JObj [(''articles'',
        JArr [JObj [(''year'', JNum 2020)], JObj [(''year'', JStr ''in press'')],
              JObj [(''year'', JNum 2023)]])])]
   \<and> year_number (JObj [(''year'', JNum 2020)]) = Inr (Some 2020)
   \<and> year_number (JObj [(''year'', JStr ''in press'')]) = Inr None
   \<and> year_number (JObj [(''year'', JNum 2023)]) = Inr (Some 2023)
   \<and> \<not> by_year_desc [JObj [(''year'', JNum 2020)], JObj [(''year'', JStr ''in press'')],
                       JObj [(''year'', JNum 2023)]]"
proof -
  let ?a = "JObj [(''year'', JNum 2020)]"
  let ?b = "JObj [(''year'', JStr ''in press'')]"
  let ?c = "JObj [(''year'', JNum 2023)]"
  have ya: "year_number ?a = Inr (Some 2020)" by (simp add: year_number_num in_range_def)
  have "parseInt ''in press'' = None"
    by (simp add: parseInt_def parse_digits_def is_space_def is_digit_def)
  then have yb: "year_number ?b = Inr None" by (simp add: year_number_nan)
  have yc: "year_number ?c = Inr (Some 2023)" by (simp add: year_number_num in_range_def)
  have s: "array_sort sortByYear [?a, ?b, ?c] = Inr [?a, ?b, ?c]"
    by (simp add: array_sort_def sortByYear_def ya yb yc)
  have 1: "shape_publications [(''publications'', JObj [(''articles'', JArr [?a, ?b, ?c])])]
      = Inr [(''publications'', JObj [(''articles'', JArr [?a, ?b, ?c])])]"
    by (simp add: shape_publications_def sort_publications_def sort_category_def s obj_set_def)
  have 2: "\<not> by_year_desc [?a, ?b, ?c]"
    by (simp add: by_year_desc_def year_value_def ya yb yc)
  from 1 ya yb yc 2 show ?thesis by simp
qed

section \<open>Hidden records\<close>

text \<open>
  C9. The shaping steps read \<^verbatim>\<open>visible\<close> in one place, the grouping of the presentations;
  every other section list, the sorted publications among them, reaches the templates
  with its hidden records, and the templates leave these out. The records left for a
  template have no record whose \<^verbatim>\<open>visible\<close> is \<^verbatim>\<open>false\<close>, and every other record of the
  list. The sort of a category passes every record on, the hidden ones too, so the
  records left of a sorted category are the records of the category that are not hidden.
  When the grouping returns, every entry of every year bucket is an entry of the list
  whose \<^verbatim>\<open>visible\<close> is not \<^verbatim>\<open>false\<close>, filed under its own year; every entry of the list
  whose \<^verbatim>\<open>visible\<close> is not \<^verbatim>\<open>false\<close> is in a bucket; and no entry of a bucket is left
  out as hidden. So no hidden entry is in \<^verbatim>\<open>presentationsByYear\<close>.
\<close>

theorem hidden_records_excluded:
  "(\<forall>r \<in> set (visible_records records).
      r \<in> set records \<and> get_prop r ''visible'' \<noteq> Inr (Some (JBool False)))
   \<and> (\<forall>r \<in> set records. get_prop r ''visible'' = Inr (Some (JBool False)) \<longrightarrow>
         r \<notin> set (visible_records records))
   \<and> (\<forall>r \<in> set records. get_prop r ''visible'' \<noteq> Inr (Some (JBool False)) \<longrightarrow>
         r \<in> set (visible_records records))
   \<and> (array_sort sortByYear xs = Inr ys \<longrightarrow>
         mset ys = mset xs
         \<and> mset (visible_records ys) = mset (visible_records xs)
         \<and> (\<forall>r \<in> set xs. get_prop r ''visible'' = Inr (Some (JBool False)) \<longrightarrow>
               r \<in> set ys \<and> r \<notin> set (visible_records ys)))
   \<and> (presentationsByYear ps = Inr groups \<longrightarrow>
         (\<forall>(year, items) \<in> set groups. \<forall>p \<in> set items.
            p \<in> set ps \<and> get_prop p ''visible'' \<noteq> Inr (Some (JBool False))
            \<and> year_of p = Inr year)
         \<and> (\<forall>p \<in> set ps. get_prop p ''visible'' \<noteq> Inr (Some (JBool False)) \<longrightarrow>
               (\<exists>(year, items) \<in> set groups. p \<in> set items))
         \<and> (\<forall>(year, items) \<in> set groups. visible_records items = items))"
proof -
  have a: "\<forall>r \<in> set (visible_records records).
      r \<in> set records \<and> get_prop r ''visible'' \<noteq> Inr (Some (JBool False))"
    by (simp add: visible_records_def shown_def)
  have b: "\<forall>r \<in> set records. get_prop r ''visible'' = Inr (Some (JBool False)) \<longrightarrow>
         r \<notin> set (visible_records records)"
    by (simp add: visible_records_def shown_def)
  have c: "\<forall>r \<in> set records. get_prop r ''visible'' \<noteq> Inr (Some (JBool False)) \<longrightarrow>
         r \<in> set (visible_records records)"
    by (simp add: visible_records_def shown_def)
  have d: "array_sort sortByYear xs = Inr ys \<longrightarrow>
         mset ys = mset xs
         \<and> mset (visible_records ys) = mset (visible_records xs)
         \<and> (\<forall>r \<in> set xs. get_prop r ''visible'' = Inr (Some (JBool False)) \<longrightarrow>
               r \<in> set ys \<and> r \<notin> set (visible_records ys))"
  proof
    assume "array_sort sortByYear xs = Inr ys"
    then have m: "mset ys = mset xs" by (rule array_sort_mset)
    then have "set ys = set xs" by (rule mset_eq_setD)
    moreover from m have "mset (visible_records ys) = mset (visible_records xs)"
      by (simp add: visible_records_def)
    ultimately show "mset ys = mset xs
         \<and> mset (visible_records ys) = mset (visible_records xs)
         \<and> (\<forall>r \<in> set xs. get_prop r ''visible'' = Inr (Some (JBool False)) \<longrightarrow>
               r \<in> set ys \<and> r \<notin> set (visible_records ys))"
      using m by (simp add: visible_records_def shown_def)
  qed
  have e: "presentationsByYear ps = Inr groups \<longrightarrow>
         (\<forall>(year, items) \<in> set groups. \<forall>p \<in> set items.
            p \<in> set ps \<and> get_prop p ''visible'' \<noteq> Inr (Some (JBool False))
            \<and> year_of p = Inr year)
         \<and> (\<forall>p \<in> set ps. get_prop p ''visible'' \<noteq> Inr (Some (JBool False)) \<longrightarrow>
               (\<exists>(year, items) \<in> set groups. p \<in> set items))
         \<and> (\<forall>(year, items) \<in> set groups. visible_records items = items)"
  proof
    assume assms: "presentationsByYear ps = Inr groups"

    from assms obtain grouped years where
      g: "group_loop ps [] = Inr grouped" and
      ys: "set years = fst ` set grouped" and
      gs: "groups = map (\<lambda>year. (year, case map_of grouped year of
                                       Some items \<Rightarrow> items | None \<Rightarrow> [])) years"
      by (rule presentationsByYear_parts)
    have none: "\<And>q. q \<notin> grouped_entries []"
      by (simp add: in_grouped_entries)
    have ent: "\<And>q. q \<in> grouped_entries grouped \<longleftrightarrow> q \<in> set ps \<and> shown q"
      using group_loop_entries [OF g] none by simp
    have 1: "\<forall>(year, items) \<in> set groups. \<forall>p \<in> set items.
              p \<in> set ps \<and> get_prop p ''visible'' \<noteq> Inr (Some (JBool False))
              \<and> year_of p = Inr year"
    proof (intro ballI, clarify)
      fix year items p
      assume m: "(year, items) \<in> set groups" and p: "p \<in> set items"
      from m gs have y: "year \<in> set years"
        and it: "items = (case map_of grouped year of Some items \<Rightarrow> items | None \<Rightarrow> [])"
        by auto
      from p it obtain its where mo: "map_of grouped year = Some its" and "items = its"
        by (cases "map_of grouped year") simp_all
      with p have "p \<in> grouped_entries grouped"
        unfolding in_grouped_entries by blast
      with ent have "p \<in> set ps" "shown p" by simp_all
      moreover have "year_of p = Inr year"
        using group_loop_years [OF g _ mo] p \<open>items = its\<close> by simp
      ultimately show "p \<in> set ps \<and> get_prop p ''visible'' \<noteq> Inr (Some (JBool False))
              \<and> year_of p = Inr year"
        by (simp add: shown_def)
    qed
    have 2: "\<forall>p \<in> set ps. get_prop p ''visible'' \<noteq> Inr (Some (JBool False)) \<longrightarrow>
              (\<exists>(year, items) \<in> set groups. p \<in> set items)"
    proof (intro ballI impI)
      fix p
      assume "p \<in> set ps" and "get_prop p ''visible'' \<noteq> Inr (Some (JBool False))"
      then have "p \<in> grouped_entries grouped"
        using ent by (simp add: shown_def)
      then obtain k items where mo: "map_of grouped k = Some items" and p: "p \<in> set items"
        unfolding in_grouped_entries by blast
      from mo have "k \<in> fst ` set grouped"
        by (metis map_of_SomeD fst_conv image_eqI)
      with ys have "k \<in> set years" by simp
      with gs mo have "(k, items) \<in> set groups"
        by (auto simp: image_iff intro!: bexI [of _ k])
      with p show "\<exists>(year, items) \<in> set groups. p \<in> set items" by blast
    qed
    have 3: "\<forall>(year, items) \<in> set groups. visible_records items = items"
      using 1 by (fastforce simp: visible_records_def shown_def filter_id_conv)
    from 1 2 3 show "(\<forall>(year, items) \<in> set groups. \<forall>p \<in> set items.
            p \<in> set ps \<and> get_prop p ''visible'' \<noteq> Inr (Some (JBool False))
            \<and> year_of p = Inr year)
         \<and> (\<forall>p \<in> set ps. get_prop p ''visible'' \<noteq> Inr (Some (JBool False)) \<longrightarrow>
               (\<exists>(year, items) \<in> set groups. p \<in> set items))
         \<and> (\<forall>(year, items) \<in> set groups. visible_records items = items)"
      by blast
  qed
  from a b c d e show ?thesis by blast
qed

theorem hidden_records_excluded_witness:
  "presentationsByYear
     [JObj [(''title'', JStr ''A''), (''date'', JStr ''May 2025'')],
      JObj [(''title'', JStr ''H''), (''date'', JStr ''2025''), (''visible'', JBool False)]]
     = Inr [(''2025'', [JObj [(''title'', JStr ''A''), (''date'', JStr ''May 2025'')]])]
   \<and> get_prop (JObj [(''title'', JStr ''H''), (''date'', JStr ''2025''), (''visible'', JBool False)])
        ''visible'' = Inr (Some (JBool False))
   \<and> year_of (JObj [(''title'', JStr ''A''), (''date'', JStr ''May 2025'')]) = Inr ''2025''
   \<and> array_sort sortByYear
        [JObj [(''title'', JStr ''P''), (''year'', JNum 2020), (''visible'', JBool False)],
         JObj [(''title'', JStr ''Q''), (''year'', JNum 2023)]]
      = Inr [JObj [(''title'', JStr ''Q''), (''year'', JNum 2023)],
             JObj [(''title'', JStr ''P''), (''year'', JNum 2020), (''visible'', JBool False)]]
   \<and> JObj [(''title'', JStr ''P''), (''year'', JNum 2020), (''visible'', JBool False)]
       \<notin> set (visible_records
           [JObj [(''title'', JStr ''Q''), (''year'', JNum 2023)],
            JObj [(''title'', JStr ''P''), (''year'', JNum 2020), (''visible'', JBool False)]])
   \<and> visible_records
        [JObj [(''title'', JStr ''Q''), (''year'', JNum 2023)],
         JObj [(''title'', JStr ''P''), (''year'', JNum 2020), (''visible'', JBool False)]]
      = [JObj [(''title'', JStr ''Q''), (''year'', JNum 2023)]]"
proof -
  let ?a = "JObj [(''title'', JStr ''A''), (''date'', JStr ''May 2025'')]"
  let ?h = "JObj [(''title'', JStr ''H''), (''date'', JStr ''2025''), (''visible'', JBool False)]"
  let ?p = "JObj [(''title'', JStr ''P''), (''year'', JNum 2020), (''visible'', JBool False)]"
  let ?q = "JObj [(''title'', JStr ''Q''), (''year'', JNum 2023)]"
  have e: "presentationsByYear [?a, ?h] = Inr [(''2025'', [?a])]"
    by code_simp
  have yp: "year_number ?p = Inr (Some 2020)" by (simp add: year_number_num in_range_def)
  have yq: "year_number ?q = Inr (Some 2023)" by (simp add: year_number_num in_range_def)
  have s: "array_sort sortByYear [?p, ?q] = Inr [?q, ?p]"
    by (simp add: array_sort_def sortByYear_def yp yq)
  have hp: "get_prop ?p ''visible'' = Inr (Some (JBool False))" by simp
  note inst = hidden_records_excluded [where ps = "[?a, ?h]" and groups = "[(''2025'', [?a])]"
      and xs = "[?p, ?q]" and ys = "[?q, ?p]" and records = "[?q, ?p]"]
  from inst [THEN conjunct2, THEN conjunct2, THEN conjunct2, THEN conjunct2, THEN mp, OF e]
  have 1: "year_of ?a = Inr ''2025''"
    by simp
  from inst [THEN conjunct2, THEN conjunct2, THEN conjunct2, THEN conjunct1, THEN mp, OF s] hp
  have 2: "?p \<notin> set (visible_records [?q, ?p])"
    by simp
  have 3: "visible_records [?q, ?p] = [?q]"
    by (simp add: visible_records_def shown_def)
  from e 1 s 2 3 show ?thesis by simp
qed

section \<open>Properties of the save operation\<close>

lemma map_of_unlink: "map_of (unlink fs f) g = (if g = f then None else map_of fs g)"
proof (induction fs)
  case Nil
  then show ?case by (simp add: unlink_def)
next
  case (Cons e fs)
  obtain a b where e: "e = (a, b)" by (cases e)
  from Cons show ?case by (auto simp: unlink_def e)
qed

lemma map_of_foldl_unlink:
  "map_of (foldl unlink fs ds) g = (if g \<in> set ds then None else map_of fs g)"
proof (induction ds arbitrary: fs)
  case Nil
  then show ?case by simp
next
  case (Cons d ds)
  show ?case
    by (simp add: Cons.IH map_of_unlink)
qed

lemma readdir_unlink: "readdir (unlink fs f) = filter (\<lambda>g. g \<noteq> f) (readdir fs)"
  by (induction fs) (auto simp: unlink_def readdir_def)

lemma readdir_foldl_unlink:
  "readdir (foldl unlink fs ds) = filter (\<lambda>g. g \<notin> set ds) (readdir fs)"
proof (induction ds arbitrary: fs)
  case Nil
  then show ?case by simp
next
  case (Cons d ds)
  have "(\<lambda>x. x \<notin> set ds \<and> x \<noteq> d) = (\<lambda>g. d \<noteq> g \<and> g \<notin> set ds)" by auto
  then show ?case
    by (simp add: Cons.IH readdir_unlink)
qed

lemma map_of_write_file:
  "map_of (write_file fs f c) g = (if g = f then Some c else map_of fs g)"
proof (cases "f \<in> set (readdir fs)")
  case True
  have "map_of (map (\<lambda>(g, c'). if g = f then (g, c) else (g, c')) fs) g
      = (if g = f \<and> f \<in> fst ` set fs then Some c else map_of fs g)"
    by (rule map_of_update_at)
  with True show ?thesis
    by (simp add: write_file_def readdir_def)
next
  case False
  then have "map_of fs f = None"
    by (simp add: readdir_def map_of_eq_None_iff)
  with False show ?thesis
    by (simp add: write_file_def map_add_def split: option.splits)
qed

lemma readdir_write_file:
  "readdir (write_file fs f c) = (if f \<in> set (readdir fs) then readdir fs else readdir fs @ [f])"
proof -
  have "map fst (map (\<lambda>(g, c'). if g = f then (g, c) else (g, c')) fs) = map fst fs"
    by (induction fs) auto
  then show ?thesis
    by (simp add: write_file_def readdir_def)
qed

lemma pruned_are_backups:
  "set (drop 5 (rev (sort (filter backupPattern (readdir fs))))) \<subseteq> {f. backupPattern f}"
proof -
  have "set (drop 5 (rev (sort (filter backupPattern (readdir fs)))))
      \<subseteq> set (rev (sort (filter backupPattern (readdir fs))))"
    by (rule set_drop_subset)
  then show ?thesis by auto
qed

lemma data_file_no_backup: "\<not> backupPattern data_name"
  by (simp add: backupPattern_def data_name_def is_digit_def)

lemma map_of_prune:
  "\<not> backupPattern f \<Longrightarrow> map_of (prune fs) f = map_of fs f"
  using pruned_are_backups [of fs] by (auto simp: prune_def map_of_foldl_unlink)

text \<open>The names that the regular expression accepts.\<close>

lemma backupPattern_iff:
  "backupPattern f \<longleftrightarrow>
     (\<exists>pre ds. ds \<noteq> [] \<and> list_all is_digit ds \<and> f = pre @ ''cv_data_backup_'' @ ds @ ''.json'')"
proof
  assume bp: "backupPattern f"
  define r' where "r' = drop 5 (rev f)"
  from bp have p1: "prefix (rev ''.json'') (rev f)"
    and ne: "takeWhile is_digit r' \<noteq> []"
    and p2: "prefix (rev ''cv_data_backup_'') (dropWhile is_digit r')"
    by (simp_all add: backupPattern_def r'_def Let_def)
  from p1 obtain t where "rev f = rev ''.json'' @ t" by (auto simp: prefix_def)
  then have rf: "rev f = rev ''.json'' @ r'" by (simp add: r'_def)
  from p2 obtain rest where dw: "dropWhile is_digit r' = rev ''cv_data_backup_'' @ rest"
    by (auto simp: prefix_def)
  have "r' = takeWhile is_digit r' @ dropWhile is_digit r'" by simp
  with dw have "rev f = rev ''.json'' @ takeWhile is_digit r' @ rev ''cv_data_backup_'' @ rest"
    using rf by simp
  then have "rev (rev f) = rev (rev ''.json'' @ takeWhile is_digit r' @ rev ''cv_data_backup_'' @ rest)"
    by simp
  then have "f = rev rest @ ''cv_data_backup_'' @ rev (takeWhile is_digit r') @ ''.json''"
    by simp
  moreover have "list_all is_digit (rev (takeWhile is_digit r'))"
    by (simp add: list_all_iff) (meson set_takeWhileD)
  moreover have "rev (takeWhile is_digit r') \<noteq> []" using ne by simp
  ultimately show "\<exists>pre ds. ds \<noteq> [] \<and> list_all is_digit ds
      \<and> f = pre @ ''cv_data_backup_'' @ ds @ ''.json''"
    by blast
next
  assume "\<exists>pre ds. ds \<noteq> [] \<and> list_all is_digit ds \<and> f = pre @ ''cv_data_backup_'' @ ds @ ''.json''"
  then obtain pre ds where ds: "ds \<noteq> []" "list_all is_digit ds"
    and f: "f = pre @ ''cv_data_backup_'' @ ds @ ''.json''" by blast
  have rf: "rev f = rev ''.json'' @ rev ds @ (CHR ''_'' # rev ''cv_data_backup'' @ rev pre)"
    by (simp add: f)
  have nd: "\<not> is_digit CHR ''_''" by (simp add: is_digit_def)
  have all: "\<forall>c \<in> set (rev ds). is_digit c" using ds(2) by (simp add: list_all_iff)
  have d5: "drop 5 (rev f) = rev ds @ (CHR ''_'' # rev ''cv_data_backup'' @ rev pre)"
    by (simp add: f)
  have tw: "takeWhile is_digit (drop 5 (rev f)) = rev ds"
    unfolding d5 using nd all by (simp add: takeWhile_tail)
  have dw: "dropWhile is_digit (drop 5 (rev f)) = CHR ''_'' # rev ''cv_data_backup'' @ rev pre"
    unfolding d5 using nd all by (simp add: dropWhile_append3)
  show "backupPattern f"
    unfolding backupPattern_def Let_def tw dw using ds(1) by (simp add: f)
qed

lemma backup_name_eq: "backup_name now = ''cv_data_backup_'' @ dec now @ ''.json''"
  by (simp add: backup_name_def data_name_def)

lemma dec_nonneg: "0 \<le> t \<Longrightarrow> dec t = dec_nat t"
  by (simp add: dec_def)

lemma backup_name_matches: "0 \<le> t \<Longrightarrow> backupPattern (backup_name t)"
  unfolding backupPattern_iff backup_name_eq
  using dec_nat_digits [of t] by (auto simp: dec_nonneg)

lemma backup_name_inj:
  assumes "0 \<le> s" "0 \<le> t" "backup_name s = backup_name t"
  shows "s = t"
proof -
  from assms(3) have "dec s = dec t" by (simp add: backup_name_eq)
  then have "digits_val (dec_nat s) = digits_val (dec_nat t)"
    using assms by (simp add: dec_nonneg)
  then show ?thesis using dec_nat_digits assms by simp
qed

lemma lex_append_same_length:
  "length xs = length ys \<Longrightarrow> xs < ys \<Longrightarrow> xs @ s < ys @ (s :: 'a :: linorder list)"
  by (induction xs ys rule: list_induct2) auto

lemma lex_prepend: "xs < ys \<Longrightarrow> p @ xs < p @ (ys :: 'a :: linorder list)"
  by (induction p) auto

lemma backup_name_mono:
  assumes "0 \<le> s" "s < t" "length (dec s) = length (dec t)"
  shows "backup_name s < backup_name t"
proof -
  have ds: "list_all is_digit (dec s)" "digits_val (dec s) = s"
    using assms(1) dec_nat_digits [of s] by (simp_all add: dec_nonneg)
  have dt: "list_all is_digit (dec t)" "digits_val (dec t) = t"
    using assms(1,2) dec_nat_digits [of t] by (simp_all add: dec_nonneg)
  have "dec s < dec t"
    using digits_less_iff [OF assms(3) ds(1) dt(1)] ds(2) dt(2) assms(2) by simp
  then have "dec s @ ''.json'' < dec t @ ''.json''"
    using assms(3) by (intro lex_append_same_length)
  then show ?thesis
    unfolding backup_name_eq by (rule lex_prepend)
qed

lemma filter_not_in_take:
  "distinct xs \<Longrightarrow> filter (\<lambda>x. x \<notin> set (take k xs)) xs = drop k xs"
proof (induction xs arbitrary: k)
  case Nil
  then show ?case by simp
next
  case (Cons x xs)
  show ?case
  proof (cases k)
    case 0
    then show ?thesis by simp
  next
    case (Suc j)
    have "filter (\<lambda>y. y \<notin> set (take j xs)) xs = drop j xs"
      using Cons by simp
    moreover have "filter (\<lambda>y. y \<noteq> x \<and> y \<notin> set (take j xs)) xs
        = filter (\<lambda>y. y \<notin> set (take j xs)) xs"
      using Cons.prems by (intro filter_cong) auto
    ultimately show ?thesis
      using Suc by simp
  qed
qed

lemma backups_write_new:
  "f \<notin> set (readdir fs) \<Longrightarrow>
   backups (write_file fs f c) = backups fs @ (if backupPattern f then [f] else [])"
  by (simp add: backups_def readdir_write_file)

lemma backups_write_existing:
  "f \<in> set (readdir fs) \<Longrightarrow> backups (write_file fs f c) = backups fs"
  by (simp add: backups_def readdir_write_file)

lemma backups_prune:
  "backups (prune fs)
     = filter (\<lambda>g. g \<notin> set (drop 5 (rev (sort (backups fs))))) (backups fs)"
  by (simp add: backups_def prune_def readdir_foldl_unlink conj_commute)

subsection \<open>The path of the backup\<close>

lemma entry_of_join:
  "name \<noteq> [] \<Longrightarrow> CHR ''/'' \<notin> set name \<Longrightarrow> entry_of base (path_join base name) = Some name"
  by (simp add: entry_of_def path_join_def)

lemma prefix_slash:
  assumes "CHR ''/'' \<notin> set pat" and n: "\<not> prefix pat b"
  shows "\<not> prefix pat (b @ CHR ''/'' # s)"
proof
  assume p: "prefix pat (b @ CHR ''/'' # s)"
  from p n obtain us where us: "pat = b @ us" "prefix us (CHR ''/'' # s)"
    by (auto simp: prefix_append)
  from us(1) n have "us \<noteq> []" by auto
  with us(2) obtain us' where "us = CHR ''/'' # us'" by (cases us) auto
  with us(1) have "CHR ''/'' \<in> set pat" by simp
  with assms(1) show False by simp
qed

lemma replace_first_dir:
  assumes "CHR ''/'' \<notin> set pat"
  shows "\<not> occurs pat b \<Longrightarrow>
    replace_first pat rep (b @ CHR ''/'' # s) = b @ CHR ''/'' # replace_first pat rep s"
proof (induction b)
  case Nil
  then have "\<not> prefix pat []" by simp
  from prefix_slash [OF assms this, of s] show ?case by simp
next
  case (Cons c b)
  then have "\<not> prefix pat (c # b)" "\<not> occurs pat b" by simp_all
  from prefix_slash [OF assms this(1), of s] Cons.IH [OF this(2)] show ?case
    by simp
qed

lemma replace_first_occurs:
  assumes "CHR ''/'' \<notin> set pat" "pat \<noteq> []"
  shows "occurs pat b \<Longrightarrow>
   \<exists>u v. b = u @ pat @ v
     \<and> replace_first pat rep (b @ CHR ''/'' # s) = u @ rep @ v @ CHR ''/'' # s"
proof (induction b)
  case Nil
  with assms show ?case by simp
next
  case (Cons c b)
  show ?case
  proof (cases "prefix pat (c # b)")
    case True
    then obtain v where v: "c # b = pat @ v" by (auto simp: prefix_def)
    have "prefix pat ((c # b) @ CHR ''/'' # s)" using True by (rule prefix_prefix)
    then have "replace_first pat rep ((c # b) @ CHR ''/'' # s)
        = rep @ drop (length pat) ((c # b) @ CHR ''/'' # s)"
      by simp
    also have "\<dots> = rep @ v @ CHR ''/'' # s"
      unfolding v by simp
    finally show ?thesis using v by (metis append_Nil)
  next
    case False
    with Cons.prems have "occurs pat b" by simp
    from Cons.IH [OF this] obtain u v where
      uv: "b = u @ pat @ v"
        "replace_first pat rep (b @ CHR ''/'' # s) = u @ rep @ v @ CHR ''/'' # s"
      by blast
    from prefix_slash [OF assms(1) False, of s]
    have "replace_first pat rep ((c # b) @ CHR ''/'' # s)
        = c # replace_first pat rep (b @ CHR ''/'' # s)"
      by simp
    with uv have "c # b = (c # u) @ pat @ v
        \<and> replace_first pat rep ((c # b) @ CHR ''/'' # s) = (c # u) @ rep @ v @ CHR ''/'' # s"
      by simp
    then show ?thesis by blast
  qed
qed


lemma entry_of_DATA_FILE: "entry_of base (DATA_FILE base) = Some data_name"
  by (simp add: DATA_FILE_def entry_of_join data_name_def)

lemma dec_no_slash: "CHR ''/'' \<notin> set (dec n)"
proof -
  have nd: "\<not> is_digit CHR ''/''" by (simp add: is_digit_def)
  have "\<And>m. 0 \<le> m \<Longrightarrow> CHR ''/'' \<notin> set (dec_nat m)"
    using dec_nat_digits nd by (auto simp: list_all_iff)
  then show ?thesis by (simp add: dec_def)
qed

lemma backup_name_entry: "backup_name now \<noteq> [] \<and> CHR ''/'' \<notin> set (backup_name now)"
  using dec_no_slash [of now] by (simp add: backup_name_eq)

lemma dir_prefix_split:
  "\<exists>b. dir_prefix base = b @ ''/'' \<and> (occurs ''.json'' b \<longleftrightarrow> occurs ''.json'' base)"
proof (cases "base = ''/''")
  case True
  then have "dir_prefix base = [] @ ''/''" by (simp add: dir_prefix_def)
  moreover have "occurs ''.json'' [] \<longleftrightarrow> occurs ''.json'' base" using True by simp
  ultimately show ?thesis by blast
next
  case False
  then have "dir_prefix base = base @ ''/''" by (simp add: dir_prefix_def)
  then show ?thesis by blast
qed

text \<open>
  With no \<^verbatim>\<open>.json\<close> in the path of the base directory the backup is the entry
  \<open>backup_name now\<close> of that directory; with one, the replacement changes the directory
  part, and the backup path is outside the base directory.
\<close>

lemma backupPath_plain:
  assumes "\<not> occurs ''.json'' base"
  shows "backupPath base now = path_join base (backup_name now)"
proof -
  from dir_prefix_split [of base] assms obtain b where
    b: "dir_prefix base = b @ ''/''" "\<not> occurs ''.json'' b" by blast
  have ns: "CHR ''/'' \<notin> set ''.json''" by simp
  have "backupPath base now
      = replace_first ''.json'' (''_backup_'' @ dec now @ ''.json'') (b @ CHR ''/'' # data_name)"
    by (simp add: backupPath_def DATA_FILE_def path_join_def b(1))
  also have "\<dots> = b @ CHR ''/'' # backup_name now"
    unfolding replace_first_dir [OF ns b(2)] by (simp add: backup_name_def)
  finally show ?thesis by (simp add: path_join_def b(1))
qed

lemma entry_backupPath:
  "entry_of base (backupPath base now)
     = (if occurs ''.json'' base then None else Some (backup_name now))"
proof (cases "occurs ''.json'' base")
  case False
  then show ?thesis
    using backup_name_entry [of now] by (simp add: backupPath_plain entry_of_join)
next
  case True
  with dir_prefix_split [of base] obtain b where
    b: "dir_prefix base = b @ ''/''" "occurs ''.json'' b" by blast
  have ns: "CHR ''/'' \<notin> set ''.json''" "''.json'' \<noteq> []" by simp_all
  let ?rep = "''_backup_'' @ dec now @ ''.json''"
  from replace_first_occurs [OF ns b(2), of ?rep data_name] obtain u v where
    uv: "b = u @ ''.json'' @ v"
      "replace_first ''.json'' ?rep (b @ CHR ''/'' # data_name) = u @ ?rep @ v @ CHR ''/'' # data_name"
    by blast
  have bp: "backupPath base now = u @ ?rep @ v @ CHR ''/'' # data_name"
    using uv(2) by (simp add: backupPath_def DATA_FILE_def path_join_def b(1))
  have "\<not> prefix (dir_prefix base) (backupPath base now)"
    unfolding bp b(1) uv(1) by simp
  with True show ?thesis by (simp add: entry_of_def)
qed

lemma save_eq:
  "save base outside fs now body =
     (case map_of fs data_name of
        None \<Rightarrow> (Saved, write_file fs data_name body)
      | Some current \<Rightarrow>
          if occurs ''.json'' base then
            (if outside (backupPath base now) then (Saved, write_file (prune fs) data_name body)
             else (Failed, fs))
          else (Saved, write_file (prune (write_file fs (backup_name now) current)) data_name body))"
  by (simp add: save_def read_path_def write_path_def entry_of_DATA_FILE entry_backupPath
      split: option.splits)

text \<open>
  C10: the pruning step changes no file whose name does not match the backup pattern; a
  file it changes matches the pattern and is deleted. The data file is the entry
  \<^verbatim>\<open>cv_data.json\<close> of the base directory, and does not match. So a whole request,
  whatever the path of the base directory and whether it succeeds or fails, leaves every
  file alone that does not match the pattern and is neither the data file nor the backup
  it creates. (The pattern is searched for at the end of the name: see
  \<open>backupPattern_iff\<close> above.)
\<close>

theorem prune_deletes_only_backups:
  "(\<not> backupPattern f \<longrightarrow> map_of (prune fs) f = map_of fs f)
   \<and> (map_of (prune fs) f \<noteq> map_of fs f \<longrightarrow> backupPattern f \<and> map_of (prune fs) f = None)
   \<and> entry_of base (DATA_FILE base) = Some data_name \<and> \<not> backupPattern data_name
   \<and> (\<not> backupPattern f \<longrightarrow> f \<noteq> data_name \<longrightarrow> f \<noteq> backup_name now \<longrightarrow>
        map_of (snd (save base outside fs now body)) f = map_of fs f)"
proof -
  have 1: "\<not> backupPattern f \<longrightarrow> map_of (prune fs) f = map_of fs f"
    by (simp add: map_of_prune)
  have 2: "map_of (prune fs) f \<noteq> map_of fs f \<longrightarrow> backupPattern f \<and> map_of (prune fs) f = None"
    using 1 by (auto simp: prune_def map_of_foldl_unlink split: if_splits)
  have 4: "\<not> backupPattern f \<longrightarrow> f \<noteq> data_name \<longrightarrow> f \<noteq> backup_name now \<longrightarrow>
        map_of (snd (save base outside fs now body)) f = map_of fs f"
    by (cases "map_of fs data_name") (simp_all add: save_eq map_of_write_file map_of_prune)
  from 1 2 4 data_file_no_backup entry_of_DATA_FILE show ?thesis by blast
qed

theorem prune_deletes_only_backups_witness:
  "\<not> backupPattern ''fotos''
   \<and> map_of (prune [(''cv_data_backup_1.json'', ''a''), (''cv_data_backup_2.json'', ''b''),
                     (''cv_data_backup_3.json'', ''c''), (''cv_data_backup_4.json'', ''d''),
                     (''cv_data_backup_5.json'', ''e''), (''cv_data_backup_6.json'', ''f''),
                     (''fotos'', ''dir''), (''cv_data.json'', ''doc'')]) ''fotos'' = Some ''dir''
   \<and> map_of (prune [(''cv_data_backup_1.json'', ''a''), (''cv_data_backup_2.json'', ''b''),
                     (''cv_data_backup_3.json'', ''c''), (''cv_data_backup_4.json'', ''d''),
                     (''cv_data_backup_5.json'', ''e''), (''cv_data_backup_6.json'', ''f''),
                     (''fotos'', ''dir''), (''cv_data.json'', ''doc'')]) ''cv_data_backup_1.json'' = None
   \<and> ''fotos'' \<noteq> data_name \<and> ''fotos'' \<noteq> backup_name 1700000000000
   \<and> map_of (snd (save ''/srv/site'' (\<lambda>p. False)
         [(''cv_data_backup_1.json'', ''a''), (''cv_data_backup_2.json'', ''b''),
          (''cv_data_backup_3.json'', ''c''), (''cv_data_backup_4.json'', ''d''),
          (''cv_data_backup_5.json'', ''e''), (''cv_data_backup_6.json'', ''f''),
          (''fotos'', ''dir''), (''cv_data.json'', ''doc'')] 1700000000000 ''new'')) ''fotos''
       = Some ''dir''"
proof -
  let ?fs = "[(''cv_data_backup_1.json'', ''a''), (''cv_data_backup_2.json'', ''b''),
              (''cv_data_backup_3.json'', ''c''), (''cv_data_backup_4.json'', ''d''),
              (''cv_data_backup_5.json'', ''e''), (''cv_data_backup_6.json'', ''f''),
              (''fotos'', ''dir''), (''cv_data.json'', ''doc'')]"
  have n: "\<not> backupPattern ''fotos''"
    by (simp add: backupPattern_def)
  have d: "map_of (prune ?fs) ''cv_data_backup_1.json'' = None"
    by code_simp
  have ne: "''fotos'' \<noteq> data_name" "''fotos'' \<noteq> backup_name 1700000000000"
    by (simp_all add: data_name_def backup_name_eq)
  note inst = prune_deletes_only_backups [where f = "''fotos''" and fs = ?fs
      and base = "''/srv/site''" and outside = "\<lambda>p. False" and now = 1700000000000
      and body = "''new''"]
  from inst n
  have 1: "map_of (prune ?fs) ''fotos'' = map_of ?fs ''fotos''" by blast
  from inst n ne
  have 2: "map_of (snd (save ''/srv/site'' (\<lambda>p. False) ?fs 1700000000000 ''new'')) ''fotos''
      = map_of ?fs ''fotos''"
    by blast
  from n d ne 1 2 show ?thesis by simp
qed

subsection \<open>At most five backups\<close>

lemma backups_write_data: "backups (write_file fs data_name c) = backups fs"
  using data_file_no_backup
  by (cases "data_name \<in> set (readdir fs)") (simp_all add: backups_write_new backups_write_existing)

lemma length_backups_prune: "length (backups (prune fs)) \<le> 5"
proof -
  define S where "S = rev (sort (backups fs))"
  define P where "P = (\<lambda>g. g \<notin> set (drop 5 S))"
  have "mset S = mset (backups fs)" by (simp add: S_def)
  then have "mset (filter P S) = mset (filter P (backups fs))" by simp
  then have "length (filter P (backups fs)) = length (filter P S)"
    by (metis size_mset)
  also have "filter P S = filter P (take 5 S) @ filter P (drop 5 S)"
    by (metis append_take_drop_id filter_append)
  also have "filter P (drop 5 S) = []"
    by (simp add: P_def filter_empty_conv)
  finally have "length (filter P (backups fs)) = length (filter P (take 5 S))"
    by simp
  moreover have "length (filter P (take 5 S)) \<le> length (take 5 S)"
    by (rule length_filter_le)
  ultimately have "length (filter P (backups fs)) \<le> 5"
    by simp
  then show ?thesis by (simp add: backups_prune S_def P_def)
qed

lemma save_backups_kept:
  "length (backups fs) \<le> 5 \<Longrightarrow> length (backups (snd (save base outside fs now body))) \<le> 5"
  using length_backups_prune [of fs]
    length_backups_prune [of "write_file fs (backup_name now) (the (map_of fs data_name))"]
  by (cases "map_of fs data_name") (simp_all add: save_eq backups_write_data)

lemma save_backups_pruned:
  "map_of fs data_name \<noteq> None \<Longrightarrow> fst (save base outside fs now body) = Saved
   \<Longrightarrow> length (backups (snd (save base outside fs now body))) \<le> 5"
  using length_backups_prune [of fs]
    length_backups_prune [of "write_file fs (backup_name now) (the (map_of fs data_name))"]
  by (cases "map_of fs data_name") (auto simp: save_eq backups_write_data split: if_splits)

lemma saves_backups_kept:
  "length (backups fs) \<le> 5 \<Longrightarrow> length (backups (saves base outside fs reqs)) \<le> 5"
proof (induction reqs rule: rev_induct)
  case Nil
  then show ?case by (simp add: saves_def)
next
  case (snoc x reqs)
  obtain t body where x: "x = (t, body)" by (cases x)
  from snoc have "length (backups (saves base outside fs reqs)) \<le> 5" by simp
  from save_backups_kept [OF this, of base outside t body] show ?case
    by (simp add: saves_def x)
qed

subsection \<open>The last five backups\<close>

lemma save_step:
  assumes plain: "\<not> occurs ''.json'' base"
    and d: "map_of fs data_name = Some cur"
    and dist: "distinct (readdir fs)"
    and inv: "sort (backups fs) = map backup_name L"
    and L: "\<forall>l \<in> set L. 0 \<le> l \<and> l < t \<and> length (dec l) = length (dec t)"
    and t: "0 \<le> t"
  shows "map_of (snd (save base outside fs t body)) data_name = Some body"
    and "distinct (readdir (snd (save base outside fs t body)))"
    and "sort (backups (snd (save base outside fs t body))) = map backup_name (drop (length L + 1 - 5) (L @ [t]))"
proof -
  define fs1 where "fs1 = write_file fs (backup_name t) cur"
  define S1 where "S1 = map backup_name L @ [backup_name t]"
  define k where "k = length L + 1 - 5"
  have setL: "set (backups fs) = backup_name ` set L"
  proof -
    have "set (sort (backups fs)) = set (map backup_name L)" using inv by simp
    then show ?thesis by simp
  qed
  have new: "backup_name t \<notin> set (readdir fs)"
  proof
    assume "backup_name t \<in> set (readdir fs)"
    then have "backup_name t \<in> set (backups fs)"
      using backup_name_matches [OF t] by (simp add: backups_def)
    with setL obtain l where l: "l \<in> set L" "backup_name t = backup_name l" by auto
    with L t have "t = l" by (intro backup_name_inj) auto
    with l(1) L show False by auto
  qed
  have rd1: "readdir fs1 = readdir fs @ [backup_name t]"
    using new by (simp add: fs1_def readdir_write_file)
  have dist1: "distinct (readdir fs1)"
    using dist new rd1 by simp
  have b1: "backups fs1 = backups fs @ [backup_name t]"
    using new backup_name_matches [OF t] by (simp add: fs1_def backups_write_new)
  have le: "\<forall>x \<in> set (map backup_name L). x \<le> backup_name t"
  proof
    fix x assume "x \<in> set (map backup_name L)"
    then obtain l where l: "l \<in> set L" "x = backup_name l" by auto
    with L have "backup_name l < backup_name t" by (intro backup_name_mono) auto
    with l show "x \<le> backup_name t" by simp
  qed
  have sortedL: "sorted (map backup_name L)"
    using sorted_sort [of "backups fs"] inv by simp
  have s1: "sort (backups fs1) = S1"
  proof (rule properties_for_sort)
    have "mset (map backup_name L) = mset (backups fs)"
      using inv by (metis mset_sort)
    then show "mset S1 = mset (backups fs1)"
      by (simp add: S1_def b1)
    show "sorted S1"
      using sortedL le by (simp add: S1_def sorted_append)
  qed
  have distS1: "distinct S1"
  proof -
    have "distinct (backups fs1)" using dist1 by (simp add: backups_def)
    then have "distinct (sort (backups fs1))" by simp
    then show ?thesis by (simp add: s1)
  qed
  have lenS1: "length S1 = length L + 1" by (simp add: S1_def)
  have dr: "drop 5 (rev S1) = rev (take k S1)"
    by (simp add: drop_rev k_def lenS1)
  have b2: "sort (backups (prune fs1)) = drop k S1"
  proof -
    have "sort (backups (prune fs1)) = sort (filter (\<lambda>g. g \<notin> set (take k S1)) (backups fs1))"
      by (simp add: backups_prune s1 dr)
    also have "\<dots> = filter (\<lambda>g. g \<notin> set (take k S1)) (sort (backups fs1))"
      by (simp add: filter_sort)
    also have "\<dots> = drop k S1"
      unfolding s1 using distS1 by (rule filter_not_in_take)
    finally show ?thesis .
  qed
  have dne: "data_name \<noteq> backup_name t"
    using backup_name_matches [OF t] data_file_no_backup by auto
  have d1: "map_of fs1 data_name = Some cur"
    using d dne by (simp add: fs1_def map_of_write_file)
  have d2: "map_of (prune fs1) data_name = Some cur"
    using d1 data_file_no_backup by (simp add: map_of_prune)
  then have in2: "data_name \<in> set (readdir (prune fs1))"
    by (metis map_of_SomeD readdir_def set_map fst_conv image_eqI)
  have sv: "snd (save base outside fs t body) = write_file (prune fs1) data_name body"
    using d plain by (simp add: save_eq fs1_def)
  show "map_of (snd (save base outside fs t body)) data_name = Some body"
    by (simp add: sv map_of_write_file)
  have rd3: "readdir (snd (save base outside fs t body)) = readdir (prune fs1)"
    using in2 by (simp add: sv readdir_write_file)
  show "distinct (readdir (snd (save base outside fs t body)))"
    using dist1 by (simp add: rd3 prune_def readdir_foldl_unlink)
  have "backups (snd (save base outside fs t body)) = backups (prune fs1)"
    by (simp add: backups_def rd3)
  then show "sort (backups (snd (save base outside fs t body))) = map backup_name (drop (length L + 1 - 5) (L @ [t]))"
    using b2 by (simp add: S1_def k_def drop_map)
qed

lemma saves_snoc:
  "saves base outside fs (reqs @ [(t, body)])
     = snd (save base outside (saves base outside fs reqs) t body)"
  by (simp add: saves_def)

lemma saves_invariant:
  assumes "\<not> occurs ''.json'' base" "map_of fs data_name = Some d0" "backups fs = []" "distinct (readdir fs)"
  shows "sorted_wrt (<) (map fst reqs) \<Longrightarrow>
         \<forall>t \<in> set (map fst reqs). 0 \<le> t \<and> length (dec t) = w \<Longrightarrow>
         map_of (saves base outside fs reqs) data_name = Some (last (d0 # map snd reqs))
         \<and> distinct (readdir (saves base outside fs reqs))
         \<and> sort (backups (saves base outside fs reqs))
             = map backup_name (drop (length reqs - 5) (map fst reqs))"
proof (induction reqs rule: rev_induct)
  case Nil
  then show ?case using assms by (simp add: saves_def)
next
  case (snoc x reqs)
  obtain t body where x: "x = (t, body)" by (cases x)
  define ts where "ts = map fst reqs"
  define L where "L = drop (length reqs - 5) ts"
  have srt: "sorted_wrt (<) ts" and lt: "\<forall>l \<in> set ts. l < t"
    using snoc.prems(1) by (simp_all add: x ts_def sorted_wrt_append)
  have wd: "\<forall>l \<in> set ts. 0 \<le> l \<and> length (dec l) = w" and t: "0 \<le> t" "length (dec t) = w"
    using snoc.prems(2) by (simp_all add: x ts_def)
  from snoc.IH srt wd have
    ih: "map_of (saves base outside fs reqs) data_name = Some (last (d0 # map snd reqs))"
      "distinct (readdir (saves base outside fs reqs))"
      "sort (backups (saves base outside fs reqs)) = map backup_name L"
    by (simp_all add: ts_def L_def)
  have "set L \<subseteq> set ts" unfolding L_def by (rule set_drop_subset)
  then have Lc: "\<forall>l \<in> set L. 0 \<le> l \<and> l < t \<and> length (dec l) = length (dec t)"
    using lt wd t by auto
  note st = save_step [OF assms(1) ih(1) ih(2) ih(3) Lc t(1), of outside body]
  have len: "length ts = length reqs" by (simp add: ts_def)
  have e1: "L @ [t] = drop (length reqs - 5) (ts @ [t])"
    by (simp add: L_def len)
  have e2: "drop (length L + 1 - 5) (L @ [t])
      = drop (length L + 1 - 5 + (length reqs - 5)) (ts @ [t])"
    by (simp only: e1 drop_drop)
  have e3: "length L + 1 - 5 + (length reqs - 5) = length (reqs @ [x]) - 5"
    by (simp add: L_def len)
  have e4: "map fst (reqs @ [x]) = ts @ [t]"
    by (simp add: ts_def x)
  have "drop (length L + 1 - 5) (L @ [t])
      = drop (length (reqs @ [x]) - 5) (map fst (reqs @ [x]))"
    by (simp only: e2 e3 e4)
  with st show ?case
    by (simp add: x saves_snoc)
qed

text \<open>
  C6, as the code has it. A request leaves at most five backups when there were at most
  five, and at most five whenever the data file existed and the request succeeded,
  whatever the clock and the path of the base directory; so does every sequence of
  requests. Now let \<^verbatim>\<open>.json\<close> not occur in the path of the base directory, start from a
  directory with the data file and no backup, and save at strictly increasing times whose
  decimal numerals have the same length (the clock \<^verbatim>\<open>Date.now()\<close> has thirteen digits
  from 2001 to 2286). Then the backups are those of the last five saves (of all of them,
  when there are fewer than five): after two saves two backups, after nine the five most
  recent; and the data file holds the last body.
\<close>

theorem saves_keep_last_five:
  "(length (backups fs) \<le> 5 \<longrightarrow>
      length (backups (snd (save base outside fs now body))) \<le> 5)
   \<and> (map_of fs data_name \<noteq> None \<longrightarrow> fst (save base outside fs now body) = Saved \<longrightarrow>
        length (backups (snd (save base outside fs now body))) \<le> 5)
   \<and> (length (backups fs) \<le> 5 \<longrightarrow> length (backups (saves base outside fs reqs)) \<le> 5)
   \<and> (\<not> occurs ''.json'' base \<longrightarrow> map_of fs data_name = Some d0 \<longrightarrow> backups fs = [] \<longrightarrow>
        distinct (readdir fs) \<longrightarrow> sorted_wrt (<) (map fst reqs) \<longrightarrow>
        (\<forall>t \<in> set (map fst reqs). 0 \<le> t \<and> length (dec t) = w) \<longrightarrow>
        sort (backups (saves base outside fs reqs))
          = map backup_name (drop (length reqs - 5) (map fst reqs))
        \<and> length (backups (saves base outside fs reqs)) = min 5 (length reqs)
        \<and> map_of (saves base outside fs reqs) data_name = Some (last (d0 # map snd reqs))
        \<and> (\<forall>t \<in> set (map fst reqs).
              entry_of base (backupPath base t) = Some (backup_name t)))"
proof -
  have 1: "length (backups fs) \<le> 5 \<longrightarrow>
      length (backups (snd (save base outside fs now body))) \<le> 5"
    by (simp add: save_backups_kept)
  have 2: "map_of fs data_name \<noteq> None \<longrightarrow> fst (save base outside fs now body) = Saved \<longrightarrow>
        length (backups (snd (save base outside fs now body))) \<le> 5"
    using save_backups_pruned [of fs base outside now body] by blast
  have 3: "length (backups fs) \<le> 5 \<longrightarrow> length (backups (saves base outside fs reqs)) \<le> 5"
    by (simp add: saves_backups_kept)
  have 4: "\<not> occurs ''.json'' base \<longrightarrow> map_of fs data_name = Some d0 \<longrightarrow> backups fs = [] \<longrightarrow>
        distinct (readdir fs) \<longrightarrow> sorted_wrt (<) (map fst reqs) \<longrightarrow>
        (\<forall>t \<in> set (map fst reqs). 0 \<le> t \<and> length (dec t) = w) \<longrightarrow>
        sort (backups (saves base outside fs reqs))
          = map backup_name (drop (length reqs - 5) (map fst reqs))
        \<and> length (backups (saves base outside fs reqs)) = min 5 (length reqs)
        \<and> map_of (saves base outside fs reqs) data_name = Some (last (d0 # map snd reqs))
        \<and> (\<forall>t \<in> set (map fst reqs).
              entry_of base (backupPath base t) = Some (backup_name t))"
  proof (intro impI)
    assume a: "\<not> occurs ''.json'' base" "map_of fs data_name = Some d0" "backups fs = []"
      "distinct (readdir fs)" "sorted_wrt (<) (map fst reqs)"
      "\<forall>t \<in> set (map fst reqs). 0 \<le> t \<and> length (dec t) = w"
    from saves_invariant [OF a] have
      s: "sort (backups (saves base outside fs reqs))
            = map backup_name (drop (length reqs - 5) (map fst reqs))"
      and d: "map_of (saves base outside fs reqs) data_name = Some (last (d0 # map snd reqs))"
      by simp_all
    have "length (backups (saves base outside fs reqs))
        = length (sort (backups (saves base outside fs reqs)))"
      by simp
    also have "\<dots> = min 5 (length reqs)"
      unfolding s by simp
    finally have l: "length (backups (saves base outside fs reqs)) = min 5 (length reqs)" .
    have e: "\<forall>t \<in> set (map fst reqs). entry_of base (backupPath base t) = Some (backup_name t)"
      using a(1) by (simp add: entry_backupPath)
    from s l d e show "sort (backups (saves base outside fs reqs))
          = map backup_name (drop (length reqs - 5) (map fst reqs))
        \<and> length (backups (saves base outside fs reqs)) = min 5 (length reqs)
        \<and> map_of (saves base outside fs reqs) data_name = Some (last (d0 # map snd reqs))
        \<and> (\<forall>t \<in> set (map fst reqs).
              entry_of base (backupPath base t) = Some (backup_name t))"
      by blast
  qed
  from 1 2 3 4 show ?thesis by blast
qed

text \<open>
  C6, the counterexamples. Two requests within the same millisecond give the same backup
  name: the second copy replaces the first, and one backup is left, not two. With
  \<^verbatim>\<open>.json\<close> in the path of the base directory the copy goes to another directory, and
  two requests leave no backup. When the numeral of the clock gets longer, the names no
  longer sort by time: of six saves the backup of the third is deleted and that of the
  first is kept.
\<close>

theorem saves_same_millisecond_counterexample:
  "backups (saves ''/srv/site'' (\<lambda>p. False) [(data_name, ''v0'')]
       [(1700000000000, ''v1''), (1700000000000, ''v2'')])
     = [''cv_data_backup_1700000000000.json'']
   \<and> length (backups (saves ''/srv/site'' (\<lambda>p. False) [(data_name, ''v0'')]
        [(1700000000000, ''v1''), (1700000000000, ''v2'')])) \<noteq> 2
   \<and> backups (saves ''/srv/cv.json.d/site'' (\<lambda>p. True) [(data_name, ''v0'')]
        [(1700000000001, ''v1''), (1700000000002, ''v2'')]) = []
   \<and> sort (backups (saves ''/srv/site'' (\<lambda>p. False) [(data_name, ''v0'')]
        [(9999999999998, ''v1''), (9999999999999, ''v2''), (10000000000000, ''v3''),
         (10000000000001, ''v4''), (10000000000002, ''v5''), (10000000000003, ''v6'')]))
     = [''cv_data_backup_10000000000001.json'', ''cv_data_backup_10000000000002.json'',
        ''cv_data_backup_10000000000003.json'', ''cv_data_backup_9999999999998.json'',
        ''cv_data_backup_9999999999999.json'']"
  by code_simp

theorem saves_keep_last_five_witness:
  "\<not> occurs ''.json'' ''/srv/site''
   \<and> sort (backups (saves ''/srv/site'' (\<lambda>p. False) [(data_name, ''v0'')]
      [(1700000000001, ''v1''), (1700000000002, ''v2''), (1700000000003, ''v3''),
       (1700000000004, ''v4''), (1700000000005, ''v5''), (1700000000006, ''v6''),
       (1700000000007, ''v7''), (1700000000008, ''v8''), (1700000000009, ''v9'')]))
   = [''cv_data_backup_1700000000005.json'', ''cv_data_backup_1700000000006.json'',
      ''cv_data_backup_1700000000007.json'', ''cv_data_backup_1700000000008.json'',
      ''cv_data_backup_1700000000009.json'']
   \<and> length (backups (saves ''/srv/site'' (\<lambda>p. False) [(data_name, ''v0'')]
      [(1700000000001, ''v1''), (1700000000002, ''v2'')])) = 2
   \<and> map_of (saves ''/srv/site'' (\<lambda>p. False) [(data_name, ''v0'')]
      [(1700000000001, ''v1''), (1700000000002, ''v2'')]) data_name = Some ''v2''
   \<and> fst (save ''/srv/cv.json.d/site'' (\<lambda>p. True) [(data_name, ''v0'')] 1700000000001 ''v1'')
       = Saved
   \<and> length (backups (snd (save ''/srv/cv.json.d/site'' (\<lambda>p. True) [(data_name, ''v0'')]
       1700000000001 ''v1''))) \<le> 5"
proof -
  let ?fs = "[(data_name, ''v0'')]"
  let ?r9 = "[(1700000000001 :: int, ''v1''), (1700000000002, ''v2''), (1700000000003, ''v3''),
       (1700000000004, ''v4''), (1700000000005, ''v5''), (1700000000006, ''v6''),
       (1700000000007, ''v7''), (1700000000008, ''v8''), (1700000000009, ''v9'')]"
  let ?r2 = "[(1700000000001 :: int, ''v1''), (1700000000002, ''v2'')]"
  have a0: "\<not> occurs ''.json'' ''/srv/site''" by simp
  have a1: "map_of ?fs data_name = Some ''v0''" by simp
  have a2: "backups ?fs = []" by (simp add: backups_def readdir_def data_file_no_backup)
  have a3: "distinct (readdir ?fs)" by (simp add: readdir_def)
  have a4: "sorted_wrt (<) (map fst ?r9)" "sorted_wrt (<) (map fst ?r2)" by simp_all
  have a5: "\<forall>t \<in> set (map fst ?r9). 0 \<le> t \<and> length (dec t) = 13" by code_simp
  have a6: "\<forall>t \<in> set (map fst ?r2). 0 \<le> t \<and> length (dec t) = 13" by code_simp
  have n: "map backup_name (drop (length ?r9 - 5) (map fst ?r9))
      = [''cv_data_backup_1700000000005.json'', ''cv_data_backup_1700000000006.json'',
         ''cv_data_backup_1700000000007.json'', ''cv_data_backup_1700000000008.json'',
         ''cv_data_backup_1700000000009.json'']"
    by code_simp
  note c9 = saves_keep_last_five [where base = "''/srv/site''" and outside = "\<lambda>p. False"
      and fs = ?fs and reqs = ?r9 and w = 13 and ?d0.0 = "''v0''",
      THEN conjunct2, THEN conjunct2, THEN conjunct2,
      THEN mp, OF a0, THEN mp, OF a1, THEN mp, OF a2, THEN mp, OF a3, THEN mp, OF a4(1),
      THEN mp, OF a5]
  note c2 = saves_keep_last_five [where base = "''/srv/site''" and outside = "\<lambda>p. False"
      and fs = ?fs and reqs = ?r2 and w = 13 and ?d0.0 = "''v0''",
      THEN conjunct2, THEN conjunct2, THEN conjunct2,
      THEN mp, OF a0, THEN mp, OF a1, THEN mp, OF a2, THEN mp, OF a3, THEN mp, OF a4(2),
      THEN mp, OF a6]
  from c9 n
  have 1: "sort (backups (saves ''/srv/site'' (\<lambda>p. False) ?fs ?r9))
      = [''cv_data_backup_1700000000005.json'', ''cv_data_backup_1700000000006.json'',
         ''cv_data_backup_1700000000007.json'', ''cv_data_backup_1700000000008.json'',
         ''cv_data_backup_1700000000009.json'']"
    by simp
  from c2
  have 2: "length (backups (saves ''/srv/site'' (\<lambda>p. False) ?fs ?r2)) = 2"
    "map_of (saves ''/srv/site'' (\<lambda>p. False) ?fs ?r2) data_name = Some ''v2''"
    by simp_all
  have s: "fst (save ''/srv/cv.json.d/site'' (\<lambda>p. True) ?fs 1700000000001 ''v1'') = Saved"
    by (simp add: save_eq)
  from saves_keep_last_five [where base = "''/srv/cv.json.d/site''" and outside = "\<lambda>p. True"
      and fs = ?fs and now = 1700000000001 and body = "''v1''",
      THEN conjunct2, THEN conjunct1] s
  have 3: "length (backups (snd (save ''/srv/cv.json.d/site'' (\<lambda>p. True) ?fs
       1700000000001 ''v1''))) \<le> 5"
    by simp
  from a0 1 2 s 3 show ?thesis by simp
qed

section \<open>Properties of the localizer on the heap\<close>

text \<open>A call only appends cells: every cell of the heap it started from is unchanged.\<close>

lemma localizeH_frame:
  "(localizeDataH n h v lang = Some (h', r) \<longrightarrow> prefix h h')"
  "(localizeItemsH n h items lang = Some (h', rs) \<longrightarrow> prefix h h')"
  "(localizeEntriesH n h entries result lang = Some (h', res) \<longrightarrow> prefix h h')"
proof (induction n h v lang and n h items lang and n h entries result lang
    arbitrary: h' r and h' rs and h' res
    rule: localizeDataH_localizeItemsH_localizeEntriesH.induct)
  case (1 h data lang)
  then show ?case by simp
next
  case (2 n h a lang)
  show ?case
  proof (cases "a < length h")
    case False
    then show ?thesis by simp
  next
    case True
    show ?thesis
    proof (cases "h ! a")
      case (CArr items)
      with True "2.IH" show ?thesis
        by (auto split: option.splits intro: prefix_order.trans)
    next
      case (CObj kvs)
      show ?thesis
      proof (cases "map_of kvs lang")
        case None
        with True CObj "2.IH" show ?thesis
          by (auto split: option.splits intro: prefix_order.trans)
      next
        case (Some w)
        with True CObj "2.IH" show ?thesis
          by (auto split: option.splits intro: prefix_order.trans)
      qed
    qed
  qed
next
  case (5 n h item items lang)
  show ?case
  proof
    assume a: "localizeItemsH n h (item # items) lang = Some (h', rs)"
    then obtain h1 i1 where d: "localizeDataH n h item lang = Some (h1, i1)"
      by (cases "localizeDataH n h item lang") auto
    with a obtain rs1 where l: "localizeItemsH n h1 items lang = Some (h', rs1)"
      by (cases "localizeItemsH n h1 items lang") auto
    from "5.IH"(1) d have "prefix h h1" by blast
    moreover from "5.IH"(2) [OF d refl] l have "prefix h1 h'" by blast
    ultimately show "prefix h h'" by (rule prefix_order.trans)
  qed
next
  case (7 n h key v entries result lang)
  show ?case
  proof
    assume a: "localizeEntriesH n h ((key, v) # entries) result lang = Some (h', res)"
    then obtain h1 v1 where d: "localizeDataH n h v lang = Some (h1, v1)"
      by (cases "localizeDataH n h v lang") auto
    with a have l: "localizeEntriesH n h1 entries (assignH result key v1) lang = Some (h', res)"
      by simp
    from "7.IH"(1) d have "prefix h h1" by blast
    moreover from "7.IH"(2) [OF d refl] l have "prefix h1 h'" by blast
    ultimately show "prefix h h'" by (rule prefix_order.trans)
  qed
qed simp_all

lemma repr_mono:
  assumes "repr h v d" "prefix h h'"
  shows "repr h' v d"
  using assms(1)
proof (induction rule: repr.induct)
  case (repr_arr a vs ds)
  from assms(2) repr_arr(1,2) have "a < length h'" "h' ! a = CArr vs"
    by (auto simp: prefix_def nth_append)
  moreover have "list_all2 (repr h') vs ds"
    using repr_arr(3) by (rule list_all2_mono) simp
  ultimately show ?case by (rule repr.repr_arr)
next
  case (repr_obj a kvs kds)
  from assms(2) repr_obj(1,2) have "a < length h'" "h' ! a = CObj kvs"
    by (auto simp: prefix_def nth_append)
  moreover have "list_all2 (rel_prod (=) (repr h')) kvs kds"
    using repr_obj(3) by (rule list_all2_mono) (auto simp: rel_prod.simps)
  ultimately show ?case by (rule repr.repr_obj)
qed (auto intro: repr.intros)

lemma localizeDataH_primitive:
  "m \<noteq> 0 \<Longrightarrow> \<forall>a. v \<noteq> VRef a \<Longrightarrow> localizeDataH m h v lang = Some (h, v)"
  by (cases m; cases v) auto

lemma localizeH_fuel:
  "(localizeDataH n h v lang = Some x \<longrightarrow> n \<le> m \<longrightarrow> localizeDataH m h v lang = Some x)"
  "(localizeItemsH n h items lang = Some y \<longrightarrow> n \<le> m \<longrightarrow> localizeItemsH m h items lang = Some y)"
  "(localizeEntriesH n h entries result lang = Some z \<longrightarrow> n \<le> m
      \<longrightarrow> localizeEntriesH m h entries result lang = Some z)"
proof (induction n h v lang and n h items lang and n h entries result lang
    arbitrary: x m and y m and z m
    rule: localizeDataH_localizeItemsH_localizeEntriesH.induct)
  case (1 h data lang)
  then show ?case by simp
next
  case (2 n h a lang)
  show ?case
  proof (intro impI)
    assume a: "localizeDataH (Suc n) h (VRef a) lang = Some x" and le: "Suc n \<le> m"
    then obtain m' where m: "m = Suc m'" "n \<le> m'" by (cases m) auto
    from a have lt: "a < length h" by (simp split: if_splits)
    show "localizeDataH m h (VRef a) lang = Some x"
    proof (cases "h ! a")
      case (CArr items)
      with a lt obtain p where p: "localizeItemsH n h items lang = Some p"
        by (cases "localizeItemsH n h items lang") auto
      with "2.IH"(1) [OF lt CArr] m have "localizeItemsH m' h items lang = Some p" by blast
      with a lt CArr p m show ?thesis by simp
    next
      case (CObj kvs)
      show ?thesis
      proof (cases "map_of kvs lang")
        case None
        with a lt CObj obtain p where p: "localizeEntriesH n h kvs [] lang = Some p"
          by (cases "localizeEntriesH n h kvs [] lang") auto
        with "2.IH"(2) [OF lt CObj None] m have "localizeEntriesH m' h kvs [] lang = Some p" by blast
        with a lt CObj None p m show ?thesis by simp
      next
        case (Some w)
        show ?thesis
        proof (cases "is_textH h w")
          case True
          with a lt CObj Some m show ?thesis by simp
        next
          case False
          with a lt CObj Some obtain p where p: "localizeEntriesH n h kvs [] lang = Some p"
            by (cases "localizeEntriesH n h kvs [] lang") auto
          with "2.IH"(3) [OF lt CObj Some False] m
          have "localizeEntriesH m' h kvs [] lang = Some p" by blast
          with a lt CObj Some False p m show ?thesis by simp
        qed
      qed
    qed
  qed
next
  case (5 n h item items lang)
  show ?case
  proof (intro impI)
    assume a: "localizeItemsH n h (item # items) lang = Some y" and le: "n \<le> m"
    then obtain h1 i1 where d: "localizeDataH n h item lang = Some (h1, i1)"
      by (cases "localizeDataH n h item lang") auto
    with a obtain q where l: "localizeItemsH n h1 items lang = Some q"
      by (cases "localizeItemsH n h1 items lang") auto
    from "5.IH"(1) d le have d': "localizeDataH m h item lang = Some (h1, i1)" by blast
    from "5.IH"(2) [OF d refl] l le have l': "localizeItemsH m h1 items lang = Some q" by blast
    from a d l d' l' show "localizeItemsH m h (item # items) lang = Some y" by simp
  qed
next
  case (7 n h key v entries result lang)
  show ?case
  proof (intro impI)
    assume a: "localizeEntriesH n h ((key, v) # entries) result lang = Some z" and le: "n \<le> m"
    then obtain h1 v1 where d: "localizeDataH n h v lang = Some (h1, v1)"
      by (cases "localizeDataH n h v lang") auto
    with a have l: "localizeEntriesH n h1 entries (assignH result key v1) lang = Some z"
      by simp
    from "7.IH"(1) d le have d': "localizeDataH m h v lang = Some (h1, v1)" by blast
    from "7.IH"(2) [OF d refl] l le
    have l': "localizeEntriesH m h1 entries (assignH result key v1) lang = Some z" by blast
    from d' l' show "localizeEntriesH m h ((key, v) # entries) result lang = Some z" by simp
  qed
qed (auto simp: localizeDataH_primitive)

lemma rel_keys:
  "list_all2 (rel_prod (=) R) obj obj' \<Longrightarrow> map fst obj = map fst obj'"
  by (induction rule: list_all2_induct) auto

lemma rel_map_of:
  "list_all2 (rel_prod (=) R) obj obj' \<Longrightarrow> rel_option R (map_of obj k) (map_of obj' k)"
  by (induction rule: list_all2_induct) auto

lemma rel_insert_index:
  "list_all2 (rel_prod (=) R) obj obj' \<Longrightarrow> R v v'
   \<Longrightarrow> list_all2 (rel_prod (=) R) (insert_index k v obj) (insert_index k v' obj')"
  by (induction rule: list_all2_induct) auto

lemma rel_update:
  "list_all2 (rel_prod (=) R) obj obj' \<Longrightarrow> R v v'
   \<Longrightarrow> list_all2 (rel_prod (=) R)
        (map (\<lambda>(k', w). if k' = k then (k', v) else (k', w)) obj)
        (map (\<lambda>(k', w). if k' = k then (k', v') else (k', w)) obj')"
  by (induction rule: list_all2_induct) auto

lemma rel_obj_set:
  assumes "list_all2 (rel_prod (=) R) obj obj'" "R v v'"
  shows "list_all2 (rel_prod (=) R) (obj_set obj k v) (obj_set obj' k v')"
proof -
  have "fst ` set obj = fst ` set obj'"
    using rel_keys [OF assms(1)] by (metis set_map)
  moreover have "list_all2 (rel_prod (=) R) (obj @ [(k, v)]) (obj' @ [(k, v')])"
    using assms by (simp add: list_all2_appendI)
  ultimately show ?thesis
    using assms by (simp add: obj_set_def rel_insert_index rel_update)
qed

lemma rel_assign:
  "list_all2 (rel_prod (=) R) obj obj' \<Longrightarrow> R v v'
   \<Longrightarrow> list_all2 (rel_prod (=) R) (assignH obj k v) (assign obj' k v')"
  by (simp add: assignH_def assign_def rel_obj_set)

lemma repr_is_text: "repr h v d \<Longrightarrow> is_textH h v = is_text d"
  by (induction rule: repr.induct) (simp_all add: is_textH_def is_array_ref_def)

lemma rel_prod_repr_mono:
  "list_all2 (rel_prod (=) (repr h)) xs ys \<Longrightarrow> prefix h h'
   \<Longrightarrow> list_all2 (rel_prod (=) (repr h')) xs ys"
  by (erule list_all2_mono) (auto simp: rel_prod.simps intro: repr_mono)

lemma repr_list_mono:
  "list_all2 (repr h) xs ys \<Longrightarrow> prefix h h' \<Longrightarrow> list_all2 (repr h') xs ys"
  by (erule list_all2_mono) (auto intro: repr_mono)

lemma localizeItemsH_refines:
  assumes "\<And>d h v. d \<in> set ds \<Longrightarrow> repr h v d \<Longrightarrow>
      \<exists>n h' r. localizeDataH n h v lang = Some (h', r) \<and> repr h' r (localizeData d lang)"
  shows "list_all2 (repr h) vs ds \<Longrightarrow>
      \<exists>n h' rs. localizeItemsH n h vs lang = Some (h', rs)
        \<and> list_all2 (repr h') rs (map (\<lambda>d. localizeData d lang) ds)"
  using assms
proof (induction ds arbitrary: vs h)
  case Nil
  then show ?case by auto
next
  case (Cons d ds)
  from Cons.prems(1) obtain v vs' where vs: "vs = v # vs'" "repr h v d" "list_all2 (repr h) vs' ds"
    by (cases vs) auto
  from Cons.prems(2) [of d h v] vs(2) obtain n1 h1 r1 where
    d1: "localizeDataH n1 h v lang = Some (h1, r1)" "repr h1 r1 (localizeData d lang)"
    by auto
  have p1: "prefix h h1" using localizeH_frame(1) d1(1) by blast
  have "list_all2 (repr h1) vs' ds" using vs(3) p1 by (rule repr_list_mono)
  from Cons.IH [OF this] Cons.prems(2) obtain n2 h2 rs where
    d2: "localizeItemsH n2 h1 vs' lang = Some (h2, rs)"
      "list_all2 (repr h2) rs (map (\<lambda>d. localizeData d lang) ds)"
    by auto
  have p2: "prefix h1 h2" using localizeH_frame(2) d2(1) by blast
  have a: "localizeDataH (max n1 n2) h v lang = Some (h1, r1)"
    using localizeH_fuel(1) d1(1) by (metis max.cobounded1)
  have b: "localizeItemsH (max n1 n2) h1 vs' lang = Some (h2, rs)"
    using localizeH_fuel(2) d2(1) by (metis max.cobounded2)
  have "localizeItemsH (max n1 n2) h vs lang = Some (h2, r1 # rs)"
    using a b by (simp add: vs(1))
  moreover have "repr h2 r1 (localizeData d lang)" using d1(2) p2 by (rule repr_mono)
  ultimately show ?case using d2(2) by auto
qed

lemma localizeEntriesH_refines:
  assumes "\<And>d h v. d \<in> snd ` set kds \<Longrightarrow> repr h v d \<Longrightarrow>
      \<exists>n h' r. localizeDataH n h v lang = Some (h', r) \<and> repr h' r (localizeData d lang)"
  shows "list_all2 (rel_prod (=) (repr h)) kvs kds \<Longrightarrow>
      list_all2 (rel_prod (=) (repr h)) result presult \<Longrightarrow>
      \<exists>n h' res. localizeEntriesH n h kvs result lang = Some (h', res)
        \<and> list_all2 (rel_prod (=) (repr h')) res
             (foldl (\<lambda>res (k, v). assign res k v) presult
                (map (\<lambda>(key, v). (key, localizeData v lang)) kds))"
  using assms
proof (induction kds arbitrary: kvs h result presult)
  case Nil
  then show ?case by auto
next
  case (Cons e kds)
  obtain k d where e: "e = (k, d)" by (cases e)
  from Cons.prems(1) obtain v kvs' where
    kvs: "kvs = (k, v) # kvs'" "repr h v d" "list_all2 (rel_prod (=) (repr h)) kvs' kds"
    by (cases kvs) (auto simp: e)
  from Cons.prems(3) [of d h v] kvs(2) obtain n1 h1 r1 where
    d1: "localizeDataH n1 h v lang = Some (h1, r1)" "repr h1 r1 (localizeData d lang)"
    by (auto simp: e)
  have ih': "\<And>d h v. d \<in> snd ` set kds \<Longrightarrow> repr h v d \<Longrightarrow>
      \<exists>n h' r. localizeDataH n h v lang = Some (h', r) \<and> repr h' r (localizeData d lang)"
    using Cons.prems(3) by auto
  have p1: "prefix h h1" using localizeH_frame(1) d1(1) by blast
  have k1: "list_all2 (rel_prod (=) (repr h1)) kvs' kds"
    using kvs(3) p1 by (rule rel_prod_repr_mono)
  have "list_all2 (rel_prod (=) (repr h1)) result presult"
    using Cons.prems(2) p1 by (rule rel_prod_repr_mono)
  then have r1: "list_all2 (rel_prod (=) (repr h1)) (assignH result k r1)
      (assign presult k (localizeData d lang))"
    using d1(2) by (rule rel_assign)
  from Cons.IH [OF k1 r1 ih'] obtain n2 h2 res where
    d2: "localizeEntriesH n2 h1 kvs' (assignH result k r1) lang = Some (h2, res)"
      "list_all2 (rel_prod (=) (repr h2)) res
         (foldl (\<lambda>res (k, v). assign res k v) (assign presult k (localizeData d lang))
            (map (\<lambda>(key, v). (key, localizeData v lang)) kds))"
    by auto
  have a: "localizeDataH (max n1 n2) h v lang = Some (h1, r1)"
    using localizeH_fuel(1) d1(1) by (metis max.cobounded1)
  have b: "localizeEntriesH (max n1 n2) h1 kvs' (assignH result k r1) lang = Some (h2, res)"
    using localizeH_fuel(3) d2(1) by (metis max.cobounded2)
  have "localizeEntriesH (max n1 n2) h kvs result lang = Some (h2, res)"
    using a b by (simp add: kvs(1))
  then show ?case using d2(2) by (auto simp: e)
qed

text \<open>
  The heap version computes what \<open>localizeData\<close> computes: on a value that represents a
  document, it returns, given enough depth, a value that represents the localized
  document.
\<close>

lemma localizeDataH_refines:
  "repr h v d \<Longrightarrow>
   \<exists>n h' r. localizeDataH n h v lang = Some (h', r) \<and> repr h' r (localizeData d lang)"
proof (induction d arbitrary: h v)
  case JNull
  then have "v = VNull" by (cases rule: repr.cases) auto
  then have "localizeDataH 1 h v lang = Some (h, v)" by simp
  with JNull show ?case by (metis localizeData.simps(3))
next
  case (JBool b)
  then have "v = VBool b" by (cases rule: repr.cases) auto
  then have "localizeDataH 1 h v lang = Some (h, v)" by simp
  with JBool show ?case by (metis localizeData.simps(4))
next
  case (JNum n)
  then have "v = VNum n" by (cases rule: repr.cases) auto
  then have "localizeDataH 1 h v lang = Some (h, v)" by simp
  with JNum show ?case by (metis localizeData.simps(5))
next
  case (JStr s)
  then have "v = VStr s" by (cases rule: repr.cases) auto
  then have "localizeDataH 1 h v lang = Some (h, v)" by simp
  with JStr show ?case by (metis localizeData.simps(6))
next
  case (JArr ds)
  from JArr.prems obtain a vs where
    v: "v = VRef a" "a < length h" "h ! a = CArr vs" "list_all2 (repr h) vs ds"
    by (cases rule: repr.cases) auto
  from localizeItemsH_refines [of ds lang h vs, OF JArr.IH v(4)] obtain n h' rs where
    it: "localizeItemsH n h vs lang = Some (h', rs)"
      "list_all2 (repr h') rs (map (\<lambda>d. localizeData d lang) ds)"
    by blast
  have "localizeDataH (Suc n) h v lang = Some (h' @ [CArr rs], VRef (length h'))"
    using v it(1) by simp
  moreover have "repr (h' @ [CArr rs]) (VRef (length h')) (JArr (map (\<lambda>d. localizeData d lang) ds))"
  proof (rule repr.repr_arr)
    show "length h' < length (h' @ [CArr rs])" by simp
    show "(h' @ [CArr rs]) ! length h' = CArr rs" by simp
    show "list_all2 (repr (h' @ [CArr rs])) rs (map (\<lambda>d. localizeData d lang) ds)"
      using it(2) by (rule repr_list_mono) simp
  qed
  ultimately show ?case by auto
next
  case (JObj kds)
  from JObj.prems obtain a kvs where
    v: "v = VRef a" "a < length h" "h ! a = CObj kvs" "list_all2 (rel_prod (=) (repr h)) kvs kds"
    by (cases rule: repr.cases) auto
  have ro: "rel_option (repr h) (map_of kvs lang) (map_of kds lang)"
    using v(4) by (rule rel_map_of)
  show ?case
  proof (cases "resolvable kds lang")
    case True
    then obtain d' where d': "map_of kds lang = Some d'" "is_text d'"
      by (auto simp: resolvable_def split: option.splits)
    with ro obtain w where w: "map_of kvs lang = Some w" "repr h w d'"
      by (cases "map_of kvs lang") auto
    have "is_textH h w" using repr_is_text [OF w(2)] d'(2) by simp
    then have "localizeDataH 1 h v lang = Some (h, w)"
      using v w(1) by simp
    moreover have "localizeData (JObj kds) lang = d'"
      using d' by (rule localizeData_resolves)
    ultimately show ?thesis using w(2) by auto
  next
    case False
    have nt: "\<And>w. map_of kvs lang = Some w \<Longrightarrow> \<not> is_textH h w"
    proof -
      fix w assume w: "map_of kvs lang = Some w"
      with ro obtain d' where d': "map_of kds lang = Some d'" "repr h w d'"
        by (cases "map_of kds lang") auto
      with False have "\<not> is_text d'" by (simp add: resolvable_def)
      then show "\<not> is_textH h w" using repr_is_text [OF d'(2)] by simp
    qed
    have e0: "list_all2 (rel_prod (=) (repr h)) [] ([] :: (string \<times> json) list)" by simp
    have ih: "\<And>d h v. d \<in> snd ` set kds \<Longrightarrow> repr h v d \<Longrightarrow>
        \<exists>n h' r. localizeDataH n h v lang = Some (h', r) \<and> repr h' r (localizeData d lang)"
    proof -
      fix d h v
      assume "d \<in> snd ` set kds" and r: "repr h v d"
      then obtain e where e: "e \<in> set kds" "d = snd e" by auto
      have "d \<in> Basic_BNFs.snds e" using e(2) by (cases e) simp
      from JObj.IH [OF e(1) this r]
      show "\<exists>n h' r. localizeDataH n h v lang = Some (h', r) \<and> repr h' r (localizeData d lang)" .
    qed
    from localizeEntriesH_refines [of kds lang h kvs "[]" "[]", OF ih v(4) e0]
    obtain n h' res where
      en: "localizeEntriesH n h kvs [] lang = Some (h', res)"
        "list_all2 (rel_prod (=) (repr h')) res
           (assign_all (map (\<lambda>(key, v). (key, localizeData v lang)) kds))"
      unfolding assign_all_def by blast
    have "localizeDataH (Suc n) h v lang = Some (h' @ [CObj res], VRef (length h'))"
      using v en(1) nt by (cases "map_of kvs lang") simp_all
    moreover have "repr (h' @ [CObj res]) (VRef (length h'))
        (JObj (assign_all (map (\<lambda>(key, v). (key, localizeData v lang)) kds)))"
    proof (rule repr.repr_obj)
      show "length h' < length (h' @ [CObj res])" by simp
      show "(h' @ [CObj res]) ! length h' = CObj res" by simp
      show "list_all2 (rel_prod (=) (repr (h' @ [CObj res]))) res
          (assign_all (map (\<lambda>(key, v). (key, localizeData v lang)) kds))"
        using en(2) by (rule rel_prod_repr_mono) simp
    qed
    moreover have "localizeData (JObj kds) lang
        = JObj (assign_all (map (\<lambda>(key, v). (key, localizeData v lang)) kds))"
      using False by (rule localizeData_unresolvable)
    ultimately show ?thesis by auto
  qed
qed

text \<open>
  C1: for an object whose own property for the language holds a string or an array (so
  for each of \<^verbatim>\<open>en\<close> and \<^verbatim>\<open>nl\<close> on a node that has both), the call returns exactly the
  value of that property, the same string or the same array, and the heap is the heap
  it started from: nothing is changed and nothing is created. Read as documents, the
  result is the value that the key holds. And whatever the argument, a call that returns
  leaves every cell of the heap it started from as it was.
\<close>

theorem localizeData_bilingual_node:
  assumes "a < length h" and "h ! a = CObj kvs"
    and "map_of kvs lang = Some v" and "is_textH h v"
  shows "localizeDataH (Suc n) h (VRef a) lang = Some (h, v)
       \<and> (\<forall>kds. repr h (VRef a) (JObj kds) \<longrightarrow>
            (\<exists>d. map_of kds lang = Some d \<and> repr h v d \<and> localizeData (JObj kds) lang = d))
       \<and> (\<forall>m w l h' r. localizeDataH m h w l = Some (h', r) \<longrightarrow> prefix h h')"
proof -
  have 1: "localizeDataH (Suc n) h (VRef a) lang = Some (h, v)"
    using assms by simp
  have 2: "\<forall>kds. repr h (VRef a) (JObj kds) \<longrightarrow>
            (\<exists>d. map_of kds lang = Some d \<and> repr h v d \<and> localizeData (JObj kds) lang = d)"
  proof (intro allI impI)
    fix kds
    assume "repr h (VRef a) (JObj kds)"
    then have "list_all2 (rel_prod (=) (repr h)) kvs kds"
      using assms(2) by (cases rule: repr.cases) auto
    then have "rel_option (repr h) (map_of kvs lang) (map_of kds lang)"
      by (rule rel_map_of)
    with assms(3) obtain d where d: "map_of kds lang = Some d" "repr h v d"
      by (cases "map_of kds lang") auto
    have "is_text d" using repr_is_text [OF d(2)] assms(4) by simp
    with d(1) have "localizeData (JObj kds) lang = d" by (rule localizeData_resolves)
    with d show "\<exists>d. map_of kds lang = Some d \<and> repr h v d \<and> localizeData (JObj kds) lang = d"
      by blast
  qed
  have 3: "\<forall>m w l h' r. localizeDataH m h w l = Some (h', r) \<longrightarrow> prefix h h'"
    using localizeH_frame(1) by blast
  from 1 2 3 show ?thesis by blast
qed

theorem localizeData_bilingual_node_witness:
  "localizeDataH 1
     [CObj [(''title'', VRef 1)],
      CObj [(''en'', VStr ''Hello''), (''nl'', VRef 2)],
      CArr [VStr ''Hallo'', VStr ''Dag'']] (VRef 1) ''en''
   = Some ([CObj [(''title'', VRef 1)],
            CObj [(''en'', VStr ''Hello''), (''nl'', VRef 2)],
            CArr [VStr ''Hallo'', VStr ''Dag'']], VStr ''Hello'')
   \<and> localizeDataH 1
     [CObj [(''title'', VRef 1)],
      CObj [(''en'', VStr ''Hello''), (''nl'', VRef 2)],
      CArr [VStr ''Hallo'', VStr ''Dag'']] (VRef 1) ''nl''
   = Some ([CObj [(''title'', VRef 1)],
            CObj [(''en'', VStr ''Hello''), (''nl'', VRef 2)],
            CArr [VStr ''Hallo'', VStr ''Dag'']], VRef 2)"
proof -
  let ?h = "[CObj [(''title'', VRef 1)],
             CObj [(''en'', VStr ''Hello''), (''nl'', VRef 2)],
             CArr [VStr ''Hallo'', VStr ''Dag'']]"
  let ?kvs = "[(''en'', VStr ''Hello''), (''nl'', VRef 2)]"
  have a: "(1::nat) < length ?h" "?h ! 1 = CObj ?kvs" by simp_all
  have en: "map_of ?kvs ''en'' = Some (VStr ''Hello'')" "is_textH ?h (VStr ''Hello'')"
    by (simp_all add: is_textH_def)
  have nl: "map_of ?kvs ''nl'' = Some (VRef 2)" "is_textH ?h (VRef 2)"
    by (simp_all add: is_textH_def is_array_ref_def)
  from localizeData_bilingual_node [OF a en, of 0] localizeData_bilingual_node [OF a nl, of 0]
  show ?thesis by simp
qed

end
